theory Spec2Isabelle
  imports Complex_Main "HOL-Library.Word" "HOL-Library.Signed_Division"
begin

unbundle bit_operations_syntax

section \<open>Primitive data\<close>

text \<open>
  \<^verbatim>\<open>CAmount\<close> is a signed 64-bit count of base units.  Signed overflow is undefined
  behaviour in C++, so amounts are modelled as unbounded integers and their sums and
  differences are exact; the one product of amounts, in \<^verbatim>\<open>getFortunePaymentAmount\<close>, is
  the 64-bit product with its wrap-around.  C++ division of amounts truncates towards
  zero (\<open>sdiv\<close>).  A script is its byte string, an address its text.  A \<^verbatim>\<open>uint256\<close> is a
  256-bit word.
\<close>

type_synonym CAmount = int
type_synonym CScript = "8 word list"
type_synonym uint256 = "256 word"

definition INT_MAX :: int where
  "INT_MAX = 2147483647"

text \<open>
  Modelled from the spec: \<^verbatim>\<open>uint256::GetUint64\<close> (uint256.h is not among the sources).
  The spec speaks of the four 64-bit words \<open>word0 .. word3\<close> of a block hash;
  \<open>GetUint64 h pos\<close> is the \<open>pos\<close>-th 64-bit word of \<open>h\<close>, least significant first.
\<close>

definition GetUint64 :: "uint256 \<Rightarrow> nat \<Rightarrow> 64 word" where
  "GetUint64 h pos = ucast (drop_bit (64 * pos) h)"

record CTxOut =
  nValue :: CAmount
  scriptPubKey :: CScript

text \<open>The default-constructed \<^verbatim>\<open>CTxOut()\<close> is the null output: value \<open>-1\<close>, empty script.\<close>

definition CTxOut_null :: CTxOut where
  "CTxOut_null = \<lparr>nValue = -1, scriptPubKey = []\<rparr>"

text \<open>
  Of a coinbase transaction under construction the composer reads and writes the output
  list.  The single input, the version, the type and the payload carry no amounts and
  are left out.
\<close>

record CMutableTransaction =
  vout :: "CTxOut list"

datatype CTxDestination = CNoDestination | Destination nat

definition IsValidDestination :: "CTxDestination \<Rightarrow> bool" where
  "IsValidDestination d = (d \<noteq> CNoDestination)"

record CBlockIndex =
  nHeight :: int
  hashBlock :: uint256
  nBits :: "32 word"

text \<open>
  The node state that the payment code consults: the active chain (a vector of block
  indexes, position = height), and the collaborators whose code lies outside the
  sources: the address codec, the script builder and the lookup of the coinbase miner
  address of a block.
\<close>

record NodeContext =
  vChain :: "CBlockIndex list"
  DecodeDestination :: "string \<Rightarrow> CTxDestination"
  GetScriptForDestination :: "CTxDestination \<Rightarrow> CScript"
  GetBlockCoinbaseMinerAddress :: "int \<Rightarrow> string"

definition ChainActive_Height :: "NodeContext \<Rightarrow> int" where
  "ChainActive_Height env = int (length (vChain env)) - 1"

text \<open>\<^verbatim>\<open>CChain::operator[]\<close>: the null pointer outside the chain.\<close>

definition ChainActive_at :: "NodeContext \<Rightarrow> int \<Rightarrow> CBlockIndex option" where
  "ChainActive_at env h =
     (if h < 0 \<or> h \<ge> int (length (vChain env)) then None else Some (vChain env ! nat h))"

datatype error =
    InvalidFortuneAddress string
  | DivisionByZero
  | VoutIndexOutOfRange
  | RuntimeError string
  | AssertionFailed string

section \<open>The lucky (fortune) payment\<close>

definition DEFAULT_FORTUNE_ADDRESS :: string where
  "DEFAULT_FORTUNE_ADDRESS = ''FkqwU8tUU6U41PuGTPUqy93hML4QtCDPDX''"

record FortuneRewardStructure =
  blockHeight :: int
  rewardPercentage :: int

record FortunePayment =
  fortuneAddress :: string
  startBlock :: int
  rewardStructures :: "FortuneRewardStructure list"

text \<open>
  The scan of \<^verbatim>\<open>rewardStructures\<close> inside \<^verbatim>\<open>getFortunePaymentAmount\<close>: first match wins.
  \<^verbatim>\<open>blockReward * rewardPercentage / 100\<close> is a product of 64-bit signed integers, which
  wraps around, followed by the division that truncates towards zero.
\<close>

fun scanRewardStructures :: "FortuneRewardStructure list \<Rightarrow> int \<Rightarrow> CAmount \<Rightarrow> CAmount" where
  "scanRewardStructures [] h blockReward = 0"
| "scanRewardStructures (rs # rest) h blockReward =
     (if blockHeight rs = INT_MAX \<or> h \<le> blockHeight rs
      then sint (word_of_int blockReward * word_of_int (rewardPercentage rs) :: 64 word) sdiv 100
      else scanRewardStructures rest h blockReward)"

definition getFortunePaymentAmount :: "FortunePayment \<Rightarrow> int \<Rightarrow> CAmount \<Rightarrow> CAmount" where
  "getFortunePaymentAmount fp h blockReward =
     (if h \<le> startBlock fp then 0
      else scanRewardStructures (rewardStructures fp) h blockReward)"

text \<open>
  \<^verbatim>\<open>static_cast<int>((w0 ^ w1 ^ w2 ^ w3) % pblockindex->nHeight)\<close>: the \<^verbatim>\<open>int\<close> height is
  converted to 64 bits unsigned for the remainder, and the result is cut to 32 bits and
  read as signed.  A zero height field is a division by zero.
\<close>

definition hashXor :: "uint256 \<Rightarrow> 64 word" where
  "hashXor h = GetUint64 h 0 XOR GetUint64 h 1 XOR GetUint64 h 2 XOR GetUint64 h 3"

definition luckyHeightOf :: "CBlockIndex \<Rightarrow> int" where
  "luckyHeightOf b =
     sint (ucast (hashXor (hashBlock b) mod (word_of_int (nHeight b) :: 64 word)) :: 32 word)"

definition GetFortuneAddressByHeight ::
  "NodeContext \<Rightarrow> FortunePayment \<Rightarrow> int \<Rightarrow> error + FortunePayment" where
  "GetFortuneAddressByHeight env fp h =
     (if h \<le> 0 \<or> h > ChainActive_Height env
      then Inr (fp\<lparr>fortuneAddress := DEFAULT_FORTUNE_ADDRESS\<rparr>)
      else case ChainActive_at env h of
        None \<Rightarrow> Inr (fp\<lparr>fortuneAddress := DEFAULT_FORTUNE_ADDRESS\<rparr>)
      | Some pblockindex \<Rightarrow>
          if (word_of_int (nHeight pblockindex) :: 64 word) = 0 then Inl DivisionByZero
          else Inr (fp\<lparr>fortuneAddress :=
                      GetBlockCoinbaseMinerAddress env (luckyHeightOf pblockindex)\<rparr>))"

text \<open>
  \<^verbatim>\<open>FillFortunePayment\<close> returns the updated payment object, the updated transaction and
  the output it appended (\<^verbatim>\<open>txoutFortuneRet\<close>).  Indexing \<^verbatim>\<open>vout[0]\<close> of an empty output
  list is out of range.
\<close>

definition FillFortunePayment ::
  "NodeContext \<Rightarrow> FortunePayment \<Rightarrow> CMutableTransaction \<Rightarrow> int \<Rightarrow> CAmount
     \<Rightarrow> error + (FortunePayment \<times> CMutableTransaction \<times> CTxOut)" where
  "FillFortunePayment env fp txNew nBlockHeight blockReward =
     (let fortunePayment = getFortunePaymentAmount fp (nBlockHeight - 1) blockReward in
      case GetFortuneAddressByHeight env fp (nBlockHeight - 1) of
        Inl e \<Rightarrow> Inl e
      | Inr fp' \<Rightarrow>
          let fortuneAddr = DecodeDestination env (fortuneAddress fp') in
          if \<not> IsValidDestination fortuneAddr
          then Inl (InvalidFortuneAddress (fortuneAddress fp'))
          else
            let payee = GetScriptForDestination env fortuneAddr in
            case vout txNew of
              [] \<Rightarrow> Inl VoutIndexOutOfRange
            | out0 # outs \<Rightarrow>
                let txoutFortuneRet = \<lparr>nValue = fortunePayment, scriptPubKey = payee\<rparr> in
                Inr (fp',
                     txNew\<lparr>vout := ((out0\<lparr>nValue := nValue out0 - fortunePayment\<rparr>) # outs)
                                      @ [txoutFortuneRet]\<rparr>,
                     txoutFortuneRet))"

text \<open>The \<^verbatim>\<open>BOOST_FOREACH\<close> of \<^verbatim>\<open>IsBlockPayeeValid\<close>: true at the first matching output.\<close>

fun payeeOutputFound :: "CTxOut list \<Rightarrow> CScript \<Rightarrow> CAmount \<Rightarrow> bool" where
  "payeeOutputFound [] payee fortuneReward = False"
| "payeeOutputFound (out # outs) payee fortuneReward =
     (if scriptPubKey out = payee \<and> nValue out \<ge> fortuneReward then True
      else payeeOutputFound outs payee fortuneReward)"

definition IsBlockPayeeValid ::
  "NodeContext \<Rightarrow> FortunePayment \<Rightarrow> CTxOut list \<Rightarrow> int \<Rightarrow> CAmount \<Rightarrow> error + bool" where
  "IsBlockPayeeValid env fp txNew_vout height blockReward =
     (case GetFortuneAddressByHeight env fp height of
        Inl e \<Rightarrow> Inl e
      | Inr fp' \<Rightarrow>
          let payee = GetScriptForDestination env (DecodeDestination env (fortuneAddress fp'));
              fortuneReward = getFortunePaymentAmount fp' height blockReward
          in Inr (payeeOutputFound txNew_vout payee fortuneReward))"

section \<open>The mempool as the block assembler consumes it\<close>

text \<open>
  A \<^verbatim>\<open>CTxMemPool::txiter\<close> is a handle on a pool entry.  A \<^verbatim>\<open>setEntries\<close> (a
  \<^verbatim>\<open>std::set\<close> of handles) is modelled by the list of its members in iteration order,
  without duplicates; \<^verbatim>\<open>count\<close> is membership, \<^verbatim>\<open>insert\<close> is \<open>List.insert\<close>.
\<close>

type_synonym txiter = nat

text \<open>
  Modelled from the spec: \<^verbatim>\<open>CTxMemPoolEntry\<close> (txmempool.h is not among the sources).
  The spec's CandidateTransaction carries the isolated byte size, signature-operation
  count and fee, and the ancestor-aggregate size, fee and sigop count (the entry itself
  plus all its in-pool ancestors); the fields are named after the getters that miner.cpp
  calls.  Sizes and counts are 64-bit unsigned, sigop counts are \<^verbatim>\<open>unsigned int\<close>.
\<close>

record CTxMemPoolEntry =
  GetTxSize :: "64 word"
  GetFee :: CAmount
  GetModifiedFee :: CAmount
  GetSpecialTxFee :: CAmount
  GetSigOpCount :: "32 word"
  GetCountWithAncestors :: "64 word"
  GetSizeWithAncestors :: "64 word"
  GetModFeesWithAncestors :: CAmount
  GetSigOpCountWithAncestors :: "32 word"

text \<open>
  The pool: the iteration order of the \<^verbatim>\<open>ancestor_score\<close> index of \<^verbatim>\<open>mapTx\<close>, the entry
  behind each handle, and the answer of \<^verbatim>\<open>CalculateMemPoolAncestors\<close> without limits (all
  in-pool ancestors of an entry).  The assembler only reads the pool.
\<close>

record CTxMemPool =
  mapTx_ancestor_score :: "txiter list"
  entry :: "txiter \<Rightarrow> CTxMemPoolEntry"
  CalculateMemPoolAncestors :: "txiter \<Rightarrow> txiter list"

text \<open>
  Modelled from the spec: \<^verbatim>\<open>CTxMemPool::CalculateDescendants\<close> (txmempool.cpp is not among
  the sources).  The spec's contract gives, for a handle, the set of all its in-pool
  descendants: the pool entries that have it among their in-pool ancestors.
\<close>

definition CalculateDescendants :: "CTxMemPool \<Rightarrow> txiter \<Rightarrow> txiter list" where
  "CalculateDescendants pool it =
     remdups (filter (\<lambda>d. it \<in> set (CalculateMemPoolAncestors pool d))
                (mapTx_ancestor_score pool))"

section \<open>The modified-package tracker\<close>

text \<open>
  Modelled from the spec: \<^verbatim>\<open>CTxMemPoolModifiedEntry\<close> and \<^verbatim>\<open>update_for_parent_inclusion\<close>
  (miner.h is not among the sources).  A tracker entry shadows the ancestor-aggregate
  figures of one pool entry; it is created with the pool's figures, and an update
  subtracts the isolated figures of a committed parent.  The field names are the ones
  miner.cpp reads and writes.  Unsigned subtraction wraps.
\<close>

record CTxMemPoolModifiedEntry =
  iter :: txiter
  nSizeWithAncestors :: "64 word"
  nModFeesWithAncestors :: CAmount
  nSigOpCountWithAncestors :: "32 word"

definition CTxMemPoolModifiedEntry_of :: "CTxMemPool \<Rightarrow> txiter \<Rightarrow> CTxMemPoolModifiedEntry" where
  "CTxMemPoolModifiedEntry_of pool it =
     \<lparr>iter = it,
      nSizeWithAncestors = GetSizeWithAncestors (entry pool it),
      nModFeesWithAncestors = GetModFeesWithAncestors (entry pool it),
      nSigOpCountWithAncestors = GetSigOpCountWithAncestors (entry pool it)\<rparr>"

definition update_for_parent_inclusion ::
  "CTxMemPool \<Rightarrow> txiter \<Rightarrow> CTxMemPoolModifiedEntry \<Rightarrow> CTxMemPoolModifiedEntry" where
  "update_for_parent_inclusion pool it e =
     e\<lparr>nModFeesWithAncestors := nModFeesWithAncestors e - GetModifiedFee (entry pool it),
       nSizeWithAncestors := nSizeWithAncestors e - GetTxSize (entry pool it),
       nSigOpCountWithAncestors := nSigOpCountWithAncestors e - GetSigOpCount (entry pool it)\<rparr>"

text \<open>
  Modelled from the spec: \<^verbatim>\<open>CompareTxMemPoolEntryByAncestorFee\<close> (txmempool.h is not among
  the sources).  The spec orders candidates by ancestor fee-rate, the ancestor-aggregate
  fee divided by the ancestor-aggregate size, and lets the tracker entry win only when
  its rate is strictly higher.  The rate is an exact rational; a zero size gives rate 0.
\<close>

definition ancestorFeeRate :: "CTxMemPoolModifiedEntry \<Rightarrow> rat" where
  "ancestorFeeRate e = of_int (nModFeesWithAncestors e) / of_nat (unat (nSizeWithAncestors e))"

definition CompareTxMemPoolEntryByAncestorFee ::
  "CTxMemPoolModifiedEntry \<Rightarrow> CTxMemPoolModifiedEntry \<Rightarrow> bool" where
  "CompareTxMemPoolEntryByAncestorFee a b = (ancestorFeeRate a > ancestorFeeRate b)"

text \<open>
  \<^verbatim>\<open>indexed_modified_transaction_set\<close> is a two-index container: unique by handle, and
  ordered (not unique) by the comparator above.  It is modelled by the list of its
  entries in the order of the score index, so \<^verbatim>\<open>begin()\<close> of that index is the head.
  \<^verbatim>\<open>insert\<close> refuses a handle that is present and otherwise places the entry behind all
  entries it does not beat; \<^verbatim>\<open>modify\<close> rewrites an entry and moves it only when it no
  longer fits between its neighbours; \<^verbatim>\<open>erase\<close> removes by handle.
\<close>

type_synonym indexed_modified_transaction_set = "CTxMemPoolModifiedEntry list"

definition mod_find ::
  "indexed_modified_transaction_set \<Rightarrow> txiter \<Rightarrow> CTxMemPoolModifiedEntry option" where
  "mod_find m t = List.find (\<lambda>e. iter e = t) m"

definition mod_count :: "indexed_modified_transaction_set \<Rightarrow> txiter \<Rightarrow> bool" where
  "mod_count m t = (t \<in> iter ` set m)"

definition mod_erase ::
  "indexed_modified_transaction_set \<Rightarrow> txiter \<Rightarrow> indexed_modified_transaction_set" where
  "mod_erase m t = filter (\<lambda>e. iter e \<noteq> t) m"

fun mod_place ::
  "CTxMemPoolModifiedEntry \<Rightarrow> indexed_modified_transaction_set
     \<Rightarrow> indexed_modified_transaction_set" where
  "mod_place e [] = [e]"
| "mod_place e (x # xs) =
     (if CompareTxMemPoolEntryByAncestorFee e x then e # x # xs else x # mod_place e xs)"

definition mod_insert ::
  "indexed_modified_transaction_set \<Rightarrow> CTxMemPoolModifiedEntry
     \<Rightarrow> indexed_modified_transaction_set" where
  "mod_insert m e = (if mod_count m (iter e) then m else mod_place e m)"

definition mod_in_place ::
  "indexed_modified_transaction_set \<Rightarrow> CTxMemPoolModifiedEntry
     \<Rightarrow> indexed_modified_transaction_set \<Rightarrow> bool" where
  "mod_in_place front e rear =
     ((front = [] \<or> \<not> CompareTxMemPoolEntryByAncestorFee e (last front)) \<and>
      (rear = [] \<or> \<not> CompareTxMemPoolEntryByAncestorFee (hd rear) e))"

definition mod_modify ::
  "indexed_modified_transaction_set \<Rightarrow> txiter
     \<Rightarrow> (CTxMemPoolModifiedEntry \<Rightarrow> CTxMemPoolModifiedEntry)
     \<Rightarrow> indexed_modified_transaction_set" where
  "mod_modify m t f =
     (let front = takeWhile (\<lambda>e. iter e \<noteq> t) m;
          rest = dropWhile (\<lambda>e. iter e \<noteq> t) m
      in case rest of
           [] \<Rightarrow> m
         | e # rear \<Rightarrow>
             if mod_in_place front (f e) rear then front @ f e # rear
             else mod_place (f e) (front @ rear))"

section \<open>The block assembler\<close>

text \<open>
  What the assembler consumes besides the pool, fixed for one assembly call: the finality
  test at the candidate block's height and lock-time cutoff, the chain-locks safety test,
  and the two consensus limits \<^verbatim>\<open>MaxBlockSigOps(fDIP0001ActiveAtTip)\<close> and
  \<^verbatim>\<open>MaxBlockSize(fDIP0001ActiveAtTip)\<close>, both \<^verbatim>\<open>unsigned int\<close>.
\<close>

record MinerContext =
  m_mempool :: CTxMemPool
  IsFinalTx :: "txiter \<Rightarrow> bool"
  IsTxSafeForMining :: "txiter \<Rightarrow> bool"
  MaxBlockSigOps :: "32 word"
  MaxBlockSize :: "32 word"

text \<open>
  A slot of \<^verbatim>\<open>pblock->vtx\<close>: the empty coinbase placeholder, a quorum commitment (known
  by its total size), the shared transaction of a pool entry, or the finished coinbase.
\<close>

datatype CTransactionRef =
    TxNull
  | TxQuorumCommitment "64 word"
  | TxMempool txiter
  | TxCoinbase CMutableTransaction

text \<open>
  The assembler object together with the template it fills (\<^verbatim>\<open>pblock->vtx\<close> and the three
  index-aligned vectors of \<^verbatim>\<open>pblocktemplate\<close>).  \<^verbatim>\<open>nBlockSize\<close> and \<^verbatim>\<open>nBlockTx\<close>
  are 64-bit unsigned, \<^verbatim>\<open>nBlockSigOps\<close> and \<^verbatim>\<open>nBlockMaxSize\<close> are \<^verbatim>\<open>unsigned int\<close>.
\<close>

record BlockAssembler =
  nBlockMaxSize :: "32 word"
  blockMinFeeRate :: CAmount
  nBlockSize :: "64 word"
  nBlockTx :: "64 word"
  nBlockSigOps :: "32 word"
  nFees :: CAmount
  nSpecialTxFees :: CAmount
  inBlock :: "txiter list"
  vtx :: "CTransactionRef list"
  vTxFees :: "CAmount list"
  vSpecialTxFees :: "CAmount list"
  vTxSigOps :: "int list"

text \<open>
  Modelled from the spec: \<^verbatim>\<open>CFeeRate::GetFee\<close> (policy/feerate.h is not among the
  sources).  The spec's cutoff compares the package fee with
  \<open>minRelayFeeRate \<times> packageSize\<close>; the rate is a fee per byte.
\<close>

definition CFeeRate_GetFee :: "CAmount \<Rightarrow> 64 word \<Rightarrow> CAmount" where
  "CFeeRate_GetFee rate nBytes = rate * int (unat nBytes)"

definition resetBlock :: "BlockAssembler \<Rightarrow> BlockAssembler" where
  "resetBlock B =
     B\<lparr>inBlock := [], nBlockSize := 1000, nBlockSigOps := 100,
       nBlockTx := 0, nFees := 0, nSpecialTxFees := 0\<rparr>"

definition onlyUnconfirmed :: "BlockAssembler \<Rightarrow> txiter list \<Rightarrow> txiter list" where
  "onlyUnconfirmed B testSet = filter (\<lambda>t. t \<notin> set (inBlock B)) testSet"

definition TestPackage :: "MinerContext \<Rightarrow> BlockAssembler \<Rightarrow> 64 word \<Rightarrow> 32 word \<Rightarrow> bool" where
  "TestPackage ctx B packageSize packageSigOps =
     (if nBlockSize B + packageSize \<ge> ucast (nBlockMaxSize B) then False
      else if nBlockSigOps B + packageSigOps \<ge> MaxBlockSigOps ctx then False
      else True)"

fun TestPackageTransactions :: "MinerContext \<Rightarrow> txiter list \<Rightarrow> bool" where
  "TestPackageTransactions ctx [] = True"
| "TestPackageTransactions ctx (it # package) =
     (if \<not> IsFinalTx ctx it then False
      else if \<not> IsTxSafeForMining ctx it then False
      else TestPackageTransactions ctx package)"

definition AddToBlock :: "CTxMemPool \<Rightarrow> BlockAssembler \<Rightarrow> txiter \<Rightarrow> BlockAssembler" where
  "AddToBlock pool B it =
     B\<lparr>vtx := vtx B @ [TxMempool it],
       vTxFees := vTxFees B @ [GetFee (entry pool it)],
       vSpecialTxFees := vSpecialTxFees B @ [GetSpecialTxFee (entry pool it)],
       vTxSigOps := vTxSigOps B @ [uint (GetSigOpCount (entry pool it))],
       nBlockSize := nBlockSize B + GetTxSize (entry pool it),
       nBlockTx := nBlockTx B + 1,
       nBlockSigOps := nBlockSigOps B + GetSigOpCount (entry pool it),
       nFees := nFees B + GetFee (entry pool it),
       nSpecialTxFees := nSpecialTxFees B + GetSpecialTxFee (entry pool it),
       inBlock := List.insert it (inBlock B)\<rparr>"

text \<open>
  \<^verbatim>\<open>UpdatePackagesForAdded\<close>: the inner loop over the descendants of one added entry, the
  outer loop over the added entries.  The accumulator is the running count and the
  tracker.
\<close>

definition adjustDescendant ::
  "CTxMemPool \<Rightarrow> txiter \<Rightarrow> txiter \<Rightarrow> indexed_modified_transaction_set
     \<Rightarrow> indexed_modified_transaction_set" where
  "adjustDescendant pool it desc m =
     (case mod_find m desc of
        None \<Rightarrow>
          (let modEntry = CTxMemPoolModifiedEntry_of pool desc;
               modEntry = modEntry\<lparr>nSizeWithAncestors :=
                             nSizeWithAncestors modEntry - GetTxSize (entry pool it)\<rparr>;
               modEntry = modEntry\<lparr>nModFeesWithAncestors :=
                             nModFeesWithAncestors modEntry - GetModifiedFee (entry pool it)\<rparr>;
               modEntry = modEntry\<lparr>nSigOpCountWithAncestors :=
                             nSigOpCountWithAncestors modEntry - GetSigOpCount (entry pool it)\<rparr>
           in mod_insert m modEntry)
      | Some mit \<Rightarrow> mod_modify m desc (update_for_parent_inclusion pool it))"

fun updateDescendants ::
  "CTxMemPool \<Rightarrow> txiter list \<Rightarrow> txiter \<Rightarrow> txiter list
     \<Rightarrow> int \<times> indexed_modified_transaction_set \<Rightarrow> int \<times> indexed_modified_transaction_set" where
  "updateDescendants pool alreadyAdded it [] acc = acc"
| "updateDescendants pool alreadyAdded it (desc # descendants) (n, m) =
     (if desc \<in> set alreadyAdded
      then updateDescendants pool alreadyAdded it descendants (n, m)
      else updateDescendants pool alreadyAdded it descendants
             (n + 1, adjustDescendant pool it desc m))"

fun updatePackages ::
  "CTxMemPool \<Rightarrow> txiter list \<Rightarrow> txiter list
     \<Rightarrow> int \<times> indexed_modified_transaction_set \<Rightarrow> int \<times> indexed_modified_transaction_set" where
  "updatePackages pool alreadyAdded [] acc = acc"
| "updatePackages pool alreadyAdded (it # its) acc =
     updatePackages pool alreadyAdded its
       (updateDescendants pool alreadyAdded it (CalculateDescendants pool it) acc)"

definition UpdatePackagesForAdded ::
  "CTxMemPool \<Rightarrow> txiter list \<Rightarrow> indexed_modified_transaction_set
     \<Rightarrow> int \<times> indexed_modified_transaction_set" where
  "UpdatePackagesForAdded pool alreadyAdded mapModifiedTx =
     updatePackages pool alreadyAdded alreadyAdded (0, mapModifiedTx)"

definition SkipMapTxEntry ::
  "BlockAssembler \<Rightarrow> txiter \<Rightarrow> indexed_modified_transaction_set \<Rightarrow> txiter list \<Rightarrow> bool" where
  "SkipMapTxEntry B it mapModifiedTx failedTx =
     (mod_count mapModifiedTx it \<or> it \<in> set (inBlock B) \<or> it \<in> set failedTx)"

text \<open>
  \<^verbatim>\<open>SortForBlock\<close> copies the package in set order and sorts it with
  \<^verbatim>\<open>CompareTxIterByAncestorCount\<close> (miner.h is not among the sources): ascending count
  of the entry with its ancestors.  Entries of equal count keep the order of the set.
\<close>

definition SortForBlock :: "CTxMemPool \<Rightarrow> txiter list \<Rightarrow> txiter list" where
  "SortForBlock pool package =
     sort_key (\<lambda>t. unat (GetCountWithAncestors (entry pool t))) package"

section \<open>The selection loop\<close>

text \<open>The locals of \<^verbatim>\<open>addPackageTxs\<close>; \<open>mi\<close> is the part of the index not yet walked.\<close>

record SelectionLoop =
  mapModifiedTx :: indexed_modified_transaction_set
  failedTx :: "txiter list"
  mi :: "txiter list"
  nConsecutiveFailed :: int
  nPackagesSelected :: int
  nDescendantsUpdated :: int

definition MAX_CONSECUTIVE_FAILURES :: int where
  "MAX_CONSECUTIVE_FAILURES = 1000"

text \<open>
  The choice between the next entry of \<^verbatim>\<open>mapTx\<close> and the best entry of the tracker.  The
  result is the package under consideration (handle and figures: the tracker's when
  \<^verbatim>\<open>fUsingModified\<close>, the pool's otherwise), the flag, and the advanced \<open>mi\<close>.
\<close>

definition SelectCandidate ::
  "CTxMemPool \<Rightarrow> txiter list \<Rightarrow> indexed_modified_transaction_set
     \<Rightarrow> (CTxMemPoolModifiedEntry \<times> bool \<times> txiter list) option" where
  "SelectCandidate pool mi_now m =
     (case mi_now of
        [] \<Rightarrow> (case m of [] \<Rightarrow> None | modit # _ \<Rightarrow> Some (modit, True, []))
      | t # rest \<Rightarrow>
          (case m of
             [] \<Rightarrow> Some (CTxMemPoolModifiedEntry_of pool t, False, rest)
           | modit # _ \<Rightarrow>
               if CompareTxMemPoolEntryByAncestorFee modit (CTxMemPoolModifiedEntry_of pool t)
               then Some (modit, True, t # rest)
               else Some (CTxMemPoolModifiedEntry_of pool t, False, rest)))"

text \<open>A package that fails a test: a tracker entry is erased and remembered as failed.\<close>

definition packageFailed :: "SelectionLoop \<Rightarrow> bool \<Rightarrow> txiter \<Rightarrow> SelectionLoop" where
  "packageFailed L fUsingModified it =
     (if fUsingModified
      then L\<lparr>mapModifiedTx := tl (mapModifiedTx L), failedTx := List.insert it (failedTx L)\<rparr>
      else L)"

text \<open>The commit loop over \<^verbatim>\<open>sortedEntries\<close>: add to the block, erase from the tracker.\<close>

fun addSortedEntries ::
  "CTxMemPool \<Rightarrow> txiter list \<Rightarrow> BlockAssembler \<times> indexed_modified_transaction_set
     \<Rightarrow> BlockAssembler \<times> indexed_modified_transaction_set" where
  "addSortedEntries pool [] acc = acc"
| "addSortedEntries pool (t # ts) (B, m) =
     addSortedEntries pool ts (AddToBlock pool B t, mod_erase m t)"

datatype exit_reason = LoopConditionFalse | FeeRateCutoff | GaveUp

datatype loop_step =
    Continue BlockAssembler SelectionLoop
  | Exit exit_reason BlockAssembler SelectionLoop
  | AssertionFailure

text \<open>
  One pass through the body of the \<^verbatim>\<open>while\<close> loop of \<^verbatim>\<open>addPackageTxs\<close>, in three
  parts: \<open>commitPackage\<close> is the tail of the body from the reset of the failure counter
  on, \<open>considerPackage\<close> is the body from the assertion on, \<open>loop_body\<close> is the whole.
\<close>

definition packageAncestors :: "CTxMemPool \<Rightarrow> BlockAssembler \<Rightarrow> txiter \<Rightarrow> txiter list" where
  "packageAncestors pool B it =
     (let ancestors = CalculateMemPoolAncestors pool it;
          ancestors = onlyUnconfirmed B ancestors
      in List.insert it ancestors)"

definition commitPackage ::
  "CTxMemPool \<Rightarrow> BlockAssembler \<Rightarrow> SelectionLoop \<Rightarrow> txiter list
     \<Rightarrow> BlockAssembler \<times> SelectionLoop" where
  "commitPackage pool B L ancestors =
     (let L = L\<lparr>nConsecutiveFailed := 0\<rparr>;
          sortedEntries = SortForBlock pool ancestors;
          (B, m) = addSortedEntries pool sortedEntries (B, mapModifiedTx L);
          L = L\<lparr>nPackagesSelected := nPackagesSelected L + 1\<rparr>;
          (n, m) = UpdatePackagesForAdded pool ancestors m
      in (B, L\<lparr>mapModifiedTx := m, nDescendantsUpdated := nDescendantsUpdated L + n\<rparr>))"

definition considerPackage ::
  "MinerContext \<Rightarrow> BlockAssembler \<Rightarrow> SelectionLoop \<Rightarrow> CTxMemPoolModifiedEntry \<Rightarrow> bool
     \<Rightarrow> loop_step" where
  "considerPackage ctx B L package fUsingModified =
     (let pool = m_mempool ctx; it = iter package in
      if it \<in> set (inBlock B) then AssertionFailure
      else
        let packageSize = nSizeWithAncestors package;
            packageFees = nModFeesWithAncestors package;
            packageSigOps = nSigOpCountWithAncestors package
        in
        if packageFees < CFeeRate_GetFee (blockMinFeeRate B) packageSize
        then Exit FeeRateCutoff B L
        else if \<not> TestPackage ctx B packageSize packageSigOps
        then
          (let L = packageFailed L fUsingModified it;
               L = L\<lparr>nConsecutiveFailed := nConsecutiveFailed L + 1\<rparr>
           in if nConsecutiveFailed L > MAX_CONSECUTIVE_FAILURES \<and>
                 nBlockSize B > ucast (nBlockMaxSize B - 1000)
              then Exit GaveUp B L
              else Continue B L)
        else
          let ancestors = packageAncestors pool B it in
          if \<not> TestPackageTransactions ctx ancestors
          then Continue B (packageFailed L fUsingModified it)
          else case commitPackage pool B L ancestors of (B, L) \<Rightarrow> Continue B L)"

definition loop_body :: "MinerContext \<Rightarrow> BlockAssembler \<Rightarrow> SelectionLoop \<Rightarrow> loop_step" where
  "loop_body ctx B L =
     (if mi L = [] \<and> mapModifiedTx L = [] then Exit LoopConditionFalse B L
      else if mi L \<noteq> [] \<and> SkipMapTxEntry B (hd (mi L)) (mapModifiedTx L) (failedTx L)
      then Continue B (L\<lparr>mi := tl (mi L)\<rparr>)
      else
        case SelectCandidate (m_mempool ctx) (mi L) (mapModifiedTx L) of
          None \<Rightarrow> Exit LoopConditionFalse B L
        | Some (package, fUsingModified, mi') \<Rightarrow>
            considerPackage ctx B (L\<lparr>mi := mi'\<rparr>) package fUsingModified)"

section \<open>Termination of the selection loop\<close>

text \<open>
  Each pass either walks one step along \<^verbatim>\<open>mapTx\<close>, or erases the head of the tracker, or
  commits a package whose head was not yet in the block.  The handles that can ever be
  selected are those still to be walked, those in the tracker, and the pool's; the
  first measure counts those of them not in the block, the second the steps left to walk
  plus the size of the tracker.
\<close>

definition loop_measure1 :: "MinerContext \<Rightarrow> BlockAssembler \<Rightarrow> SelectionLoop \<Rightarrow> nat" where
  "loop_measure1 ctx B L =
     card ((set (mi L) \<union> iter ` set (mapModifiedTx L) \<union> set (mapTx_ancestor_score (m_mempool ctx)))
            - set (inBlock B))"

definition loop_measure2 :: "SelectionLoop \<Rightarrow> nat" where
  "loop_measure2 L = length (mi L) + length (mapModifiedTx L)"

definition loop_universe :: "MinerContext \<Rightarrow> SelectionLoop \<Rightarrow> txiter set" where
  "loop_universe ctx L =
     set (mi L) \<union> iter ` set (mapModifiedTx L) \<union> set (mapTx_ancestor_score (m_mempool ctx))"

definition loop_rel :: "((MinerContext \<times> BlockAssembler \<times> SelectionLoop) \<times>
                         (MinerContext \<times> BlockAssembler \<times> SelectionLoop)) set" where
  "loop_rel = inv_image (less_than <*lex*> less_than)
                (\<lambda>(ctx, B, L). (loop_measure1 ctx B L, loop_measure2 L))"

lemma mod_erase_keys: "iter ` set (mod_erase m t) = iter ` set m - {t}"
  by (auto simp: mod_erase_def)

lemma mod_place_set: "set (mod_place e m) = insert e (set m)"
  by (induction m) auto

lemma mod_insert_keys: "iter ` set (mod_insert m e) \<subseteq> insert (iter e) (iter ` set m)"
  by (auto simp: mod_insert_def mod_place_set)

lemma mod_modify_set_subset:
  "set (mod_modify m t f) \<subseteq> set m \<union> f ` set m"
proof -
  let ?P = "\<lambda>e. iter e \<noteq> t"
  have m: "m = takeWhile ?P m @ dropWhile ?P m" by simp
  show ?thesis
  proof (cases "dropWhile ?P m")
    case Nil
    show ?thesis unfolding mod_modify_def Let_def Nil by simp
  next
    case (Cons e rear)
    then have "set m = set (takeWhile ?P m) \<union> insert e (set rear)"
      by (metis m set_append list.simps(15))
    then show ?thesis unfolding mod_modify_def Let_def Cons
      by (auto simp: mod_place_set)
  qed
qed

lemma update_for_parent_inclusion_iter [simp]:
  "iter (update_for_parent_inclusion pool it e) = iter e"
  by (simp add: update_for_parent_inclusion_def)

lemma adjustDescendant_keys:
  "iter ` set (adjustDescendant pool it desc m) \<subseteq> insert desc (iter ` set m)"
proof (cases "mod_find m desc")
  case None
  then show ?thesis
    using mod_insert_keys[of m]
    by (auto simp: adjustDescendant_def Let_def CTxMemPoolModifiedEntry_of_def mod_insert_def mod_place_set)
next
  case (Some e)
  then show ?thesis
    using mod_modify_set_subset[of m desc "update_for_parent_inclusion pool it"]
    by (auto simp: adjustDescendant_def)
qed

lemma updateDescendants_keys:
  "iter ` set (snd (updateDescendants pool aa it ds acc)) \<subseteq> set ds \<union> iter ` set (snd acc)"
proof (induction ds arbitrary: acc)
  case Nil
  then show ?case by simp
next
  case (Cons d ds)
  obtain n m where acc: "acc = (n, m)" by (cases acc)
  show ?case
    using Cons.IH[of "(n, m)"] Cons.IH[of "(n + 1, adjustDescendant pool it d m)"]
      adjustDescendant_keys[of pool it d m]
    by (simp add: acc) blast
qed

lemma CalculateDescendants_subset:
  "set (CalculateDescendants pool it) \<subseteq> set (mapTx_ancestor_score pool)"
  by (auto simp: CalculateDescendants_def)

lemma updatePackages_keys:
  "iter ` set (snd (updatePackages pool aa its acc))
     \<subseteq> set (mapTx_ancestor_score pool) \<union> iter ` set (snd acc)"
proof (induction its arbitrary: acc)
  case Nil
  then show ?case by simp
next
  case (Cons i its)
  show ?case
    using Cons.IH[of "updateDescendants pool aa i (CalculateDescendants pool i) acc"]
      updateDescendants_keys[of pool aa i "CalculateDescendants pool i" acc]
      CalculateDescendants_subset[of pool i]
    by auto
qed

lemma UpdatePackagesForAdded_keys:
  "iter ` set (snd (UpdatePackagesForAdded pool aa m))
     \<subseteq> set (mapTx_ancestor_score pool) \<union> iter ` set m"
  using updatePackages_keys[of pool aa aa "(0, m)"] by (simp add: UpdatePackagesForAdded_def)

lemma addSortedEntries_keys:
  "iter ` set (snd (addSortedEntries pool ts (B, m))) = iter ` set m - set ts"
  by (induction ts arbitrary: B m) (auto simp: mod_erase_keys)

lemma AddToBlock_inBlock [simp]: "set (inBlock (AddToBlock pool B t)) = insert t (set (inBlock B))"
  by (simp add: AddToBlock_def)

lemma addSortedEntries_inBlock:
  "set (inBlock (fst (addSortedEntries pool ts (B, m)))) = set ts \<union> set (inBlock B)"
  by (induction ts arbitrary: B m) auto



lemma SelectCandidate_Some:
  assumes "SelectCandidate pool mi_now m = Some (package, fUsingModified, mi')"
  shows "(fUsingModified \<longrightarrow> m \<noteq> [] \<and> package = hd m \<and> mi' = mi_now) \<and>
         (\<not> fUsingModified \<longrightarrow> mi_now \<noteq> [] \<and> mi' = tl mi_now \<and>
             package = CTxMemPoolModifiedEntry_of pool (hd mi_now))"
  using assms
  by (auto simp: SelectCandidate_def split: list.splits if_splits)

lemma packageFailed_measure:
  assumes "fUsingModified \<longrightarrow> mapModifiedTx L \<noteq> []"
  shows "set (mi (packageFailed L fUsingModified it)) = set (mi L)"
    and "iter ` set (mapModifiedTx (packageFailed L fUsingModified it)) \<subseteq> iter ` set (mapModifiedTx L)"
    and "length (mapModifiedTx (packageFailed L fUsingModified it)) \<le> length (mapModifiedTx L)"
    and "fUsingModified \<Longrightarrow> length (mapModifiedTx (packageFailed L fUsingModified it)) < length (mapModifiedTx L)"
    and "mi (packageFailed L fUsingModified it) = mi L"
  using assms
  by (auto simp: packageFailed_def dest: list.set_sel(2))

lemma commitPackage_sets:
  assumes "commitPackage pool B L anc = (B', L')"
  shows "set (inBlock B') = set anc \<union> set (inBlock B)"
    and "iter ` set (mapModifiedTx L') \<subseteq> set (mapTx_ancestor_score pool) \<union> iter ` set (mapModifiedTx L)"
    and "mi L' = mi L"
proof -
  obtain B1 m1 where a: "addSortedEntries pool (SortForBlock pool anc) (B, mapModifiedTx L) = (B1, m1)"
    by (cases "addSortedEntries pool (SortForBlock pool anc) (B, mapModifiedTx L)")
  obtain n m2 where u: "UpdatePackagesForAdded pool anc m1 = (n, m2)"
    by (cases "UpdatePackagesForAdded pool anc m1")
  from assms a u have B': "B' = B1" and L': "mapModifiedTx L' = m2" "mi L' = mi L"
    by (auto simp: commitPackage_def Let_def)
  have "set (inBlock B1) = set (SortForBlock pool anc) \<union> set (inBlock B)"
    using addSortedEntries_inBlock[of pool "SortForBlock pool anc" B "mapModifiedTx L"] a by simp
  then show "set (inBlock B') = set anc \<union> set (inBlock B)"
    by (simp add: B' SortForBlock_def)
  have "iter ` set m1 \<subseteq> iter ` set (mapModifiedTx L)"
    using addSortedEntries_keys[of pool "SortForBlock pool anc" B "mapModifiedTx L"] a by auto
  moreover have "iter ` set m2 \<subseteq> set (mapTx_ancestor_score pool) \<union> iter ` set m1"
    using UpdatePackagesForAdded_keys[of pool anc m1] u by simp
  ultimately show "iter ` set (mapModifiedTx L') \<subseteq> set (mapTx_ancestor_score pool) \<union> iter ` set (mapModifiedTx L)"
    unfolding L' by blast
  show "mi L' = mi L" by fact
qed


lemma loop_measure1_alt: "loop_measure1 ctx B L = card (loop_universe ctx L - set (inBlock B))"
  by (simp add: loop_measure1_def loop_universe_def)

lemma finite_loop_universe [simp]: "finite (loop_universe ctx L)"
  by (simp add: loop_universe_def)

lemma packageAncestors_mem: "it \<in> set (packageAncestors pool B it)"
  by (simp add: packageAncestors_def)

lemma considerPackage_Continue:
  assumes c: "considerPackage ctx B L package fUsingModified = Continue B' L'"
    and m: "fUsingModified \<longrightarrow> mapModifiedTx L \<noteq> []"
  shows "(B' = B \<and> loop_universe ctx L' \<subseteq> loop_universe ctx L \<and> mi L' = mi L \<and>
          length (mapModifiedTx L') \<le> length (mapModifiedTx L) \<and>
          (fUsingModified \<longrightarrow> length (mapModifiedTx L') < length (mapModifiedTx L)))
       \<or> (iter package \<in> set (inBlock B') \<and> iter package \<notin> set (inBlock B) \<and>
          set (inBlock B) \<subseteq> set (inBlock B') \<and> loop_universe ctx L' \<subseteq> loop_universe ctx L)"
proof -
  let ?pool = "m_mempool ctx" and ?it = "iter package"
  let ?F = "packageFailed L fUsingModified ?it"
  note pf = packageFailed_measure[OF m, of ?it]
  have F: "loop_universe ctx ?F \<subseteq> loop_universe ctx L"
    using pf(1,2) by (auto simp: loop_universe_def)
  from c have nin: "?it \<notin> set (inBlock B)"
    by (auto simp: considerPackage_def Let_def split: if_splits)
  consider (size) "B' = B" "L' = ?F\<lparr>nConsecutiveFailed := nConsecutiveFailed ?F + 1\<rparr>"
    | (final) "B' = B" "L' = ?F"
    | (commit) "commitPackage ?pool B L (packageAncestors ?pool B ?it) = (B', L')"
    using c by (auto simp: considerPackage_def Let_def split: if_splits prod.splits)
  then show ?thesis
  proof cases
    case size
    have "loop_universe ctx L' = loop_universe ctx ?F"
      by (simp add: size loop_universe_def)
    then show ?thesis using F pf size by simp
  next
    case final
    then show ?thesis using F pf by simp
  next
    case commit
    note cs = commitPackage_sets[OF commit]
    have "loop_universe ctx L' \<subseteq> loop_universe ctx L"
      using cs(2,3) by (auto simp: loop_universe_def)
    then show ?thesis using cs(1) nin packageAncestors_mem[of ?it ?pool B] by auto
  qed
qed

lemma loop_body_decreases:
  assumes "loop_body ctx B L = Continue B' L'"
  shows "((ctx, B', L'), (ctx, B, L)) \<in> loop_rel"
proof -
  let ?pool = "m_mempool ctx"
  have mono: "\<And>L1 L2 B1 B2. loop_universe ctx L1 \<subseteq> loop_universe ctx L2 \<Longrightarrow> set (inBlock B2) \<subseteq> set (inBlock B1)
                \<Longrightarrow> loop_measure1 ctx B1 L1 \<le> loop_measure1 ctx B2 L2"
    unfolding loop_measure1_alt by (rule card_mono) auto
  show ?thesis
  proof (cases "mi L \<noteq> [] \<and> SkipMapTxEntry B (hd (mi L)) (mapModifiedTx L) (failedTx L)")
    case True
    with assms have B': "B' = B" and L': "L' = L\<lparr>mi := tl (mi L)\<rparr>"
      by (auto simp: loop_body_def split: if_splits)
    have "loop_universe ctx L' \<subseteq> loop_universe ctx L"
      using True by (auto simp: L' loop_universe_def dest: list.set_sel(2))
    then have "loop_measure1 ctx B' L' \<le> loop_measure1 ctx B L"
      using mono B' by simp
    moreover have "loop_measure2 L' < loop_measure2 L"
      using True by (simp add: L' loop_measure2_def)
    ultimately show ?thesis by (auto simp: loop_rel_def)
  next
    case False
    with assms obtain package fUsingModified mi' where
      sel: "SelectCandidate ?pool (mi L) (mapModifiedTx L) = Some (package, fUsingModified, mi')"
      and c: "considerPackage ctx B (L\<lparr>mi := mi'\<rparr>) package fUsingModified = Continue B' L'"
      by (auto simp: loop_body_def split: if_splits option.splits)
    let ?L0 = "L\<lparr>mi := mi'\<rparr>"
    note S = SelectCandidate_Some[OF sel]
    have m: "fUsingModified \<longrightarrow> mapModifiedTx ?L0 \<noteq> []" using S by simp
    have U0: "loop_universe ctx ?L0 \<subseteq> loop_universe ctx L"
      using S by (cases fUsingModified) (auto simp: loop_universe_def dest: list.set_sel(2))
    have it: "iter package \<in> loop_universe ctx L"
      using S by (cases fUsingModified) (auto simp: loop_universe_def CTxMemPoolModifiedEntry_of_def)
    have m20: "loop_measure2 ?L0 \<le> loop_measure2 L" "\<not> fUsingModified \<Longrightarrow> loop_measure2 ?L0 < loop_measure2 L"
      using S by (cases fUsingModified; simp add: loop_measure2_def)+
    from considerPackage_Continue[OF c m]
    show ?thesis
    proof
      assume a: "B' = B \<and> loop_universe ctx L' \<subseteq> loop_universe ctx ?L0 \<and> mi L' = mi ?L0 \<and>
          length (mapModifiedTx L') \<le> length (mapModifiedTx ?L0) \<and>
          (fUsingModified \<longrightarrow> length (mapModifiedTx L') < length (mapModifiedTx ?L0))"
      then have "loop_measure1 ctx B' L' \<le> loop_measure1 ctx B L"
        using mono[of L' L B B'] U0 by auto
      moreover have "loop_measure2 L' < loop_measure2 L"
        using a m20 by (cases fUsingModified) (auto simp: loop_measure2_def)
      ultimately show ?thesis by (auto simp: loop_rel_def)
    next
      assume a: "iter package \<in> set (inBlock B') \<and> iter package \<notin> set (inBlock B) \<and>
          set (inBlock B) \<subseteq> set (inBlock B') \<and> loop_universe ctx L' \<subseteq> loop_universe ctx ?L0"
      have "loop_universe ctx L' - set (inBlock B') \<subset> loop_universe ctx L - set (inBlock B)"
        using a U0 it by auto
      then have "loop_measure1 ctx B' L' < loop_measure1 ctx B L"
        unfolding loop_measure1_alt by (intro psubset_card_mono) auto
      then show ?thesis by (auto simp: loop_rel_def)
    qed
  qed
qed

datatype loop_result = Returned exit_reason BlockAssembler SelectionLoop | Aborted

function addPackageTxs_loop :: "MinerContext \<Rightarrow> BlockAssembler \<Rightarrow> SelectionLoop \<Rightarrow> loop_result" where
  "addPackageTxs_loop ctx B L =
     (case loop_body ctx B L of
        Continue B' L' \<Rightarrow> addPackageTxs_loop ctx B' L'
      | Exit reason B' L' \<Rightarrow> Returned reason B' L'
      | AssertionFailure \<Rightarrow> Aborted)"
  by pat_completeness auto
termination
proof (relation loop_rel)
  show "wf loop_rel" unfolding loop_rel_def by (intro wf_inv_image wf_lex_prod wf_less_than)
next
  fix ctx B L B' L'
  assume "loop_body ctx B L = Continue B' L'"
  then show "((ctx, B', L'), (ctx, B, L)) \<in> loop_rel" by (rule loop_body_decreases)
qed


text \<open>
  \<^verbatim>\<open>addPackageTxs\<close>: the locals as they stand when the loop is entered (the tracker seeded
  with the descendants of what is already in the block; the count of that first update is
  dropped), then the loop.
\<close>

definition initialLoop :: "MinerContext \<Rightarrow> BlockAssembler \<Rightarrow> SelectionLoop" where
  "initialLoop ctx B =
     (let pool = m_mempool ctx;
          (n, m) = UpdatePackagesForAdded pool (inBlock B) []
      in \<lparr>mapModifiedTx = m, failedTx = [], mi = mapTx_ancestor_score pool,
          nConsecutiveFailed = 0, nPackagesSelected = 0, nDescendantsUpdated = 0\<rparr>)"

definition addPackageTxs :: "MinerContext \<Rightarrow> BlockAssembler \<Rightarrow> loop_result" where
  "addPackageTxs ctx B = addPackageTxs_loop ctx B (initialLoop ctx B)"

text \<open>The states of the assembler and the locals at the head of the loop, pass after pass.\<close>

inductive loop_reaches ::
  "MinerContext \<Rightarrow> BlockAssembler \<Rightarrow> SelectionLoop \<Rightarrow> BlockAssembler \<Rightarrow> SelectionLoop \<Rightarrow> bool"
  for ctx B L where
    loop_reaches_start: "loop_reaches ctx B L B L"
  | loop_reaches_pass:
      "loop_reaches ctx B L B1 L1 \<Longrightarrow> loop_body ctx B1 L1 = Continue B2 L2
         \<Longrightarrow> loop_reaches ctx B L B2 L2"

section \<open>Creating a new block\<close>

record Options =
  options_blockMinFeeRate :: CAmount
  options_nBlockMaxSize :: "64 word"

text \<open>
  The constructor: \<^verbatim>\<open>nBlockMaxSize\<close> is limited to between 1000 and
  \<^verbatim>\<open>MaxBlockSize() - 1000\<close>, all operands cast to \<^verbatim>\<open>unsigned int\<close>.  The other
  members are set by \<open>resetBlock\<close> and by \<open>CreateNewBlock\<close>.
\<close>

definition BlockAssembler_init :: "MinerContext \<Rightarrow> Options \<Rightarrow> BlockAssembler" where
  "BlockAssembler_init ctx options =
     \<lparr>nBlockMaxSize = max 1000 (min (MaxBlockSize ctx - 1000) (ucast (options_nBlockMaxSize options))),
      blockMinFeeRate = options_blockMinFeeRate options,
      nBlockSize = 0, nBlockTx = 0, nBlockSigOps = 0, nFees = 0, nSpecialTxFees = 0,
      inBlock = [], vtx = [], vTxFees = [], vSpecialTxFees = [], vTxSigOps = []\<rparr>"

datatype cbtx_outcome = CbTxOk | CbTxBadProtxHash | CbTxFailed

text \<open>
  What \<^verbatim>\<open>CreateNewBlock\<close> consumes from its collaborators during one call: the node
  state, the miner's context, the two deployment flags, the total sizes of the quorum
  commitments that \<^verbatim>\<open>GetMineableCommitmentTx\<close> yields (in the order of the enabled quorum
  parameters), the subsidy function, the table \<^verbatim>\<open>swapAddresses\<close> in the iteration order of
  the map (its amounts are compile-time constants), the consensus parameter
  \<^verbatim>\<open>nFortunePayment\<close>, the outcomes of the two Merkle-root computations of the coinbase
  payload, the outputs that the service-provider and superblock schedules name for a
  height, and the final validity test of the block (here, of its transaction list).
\<close>

record BlockContext =
  node :: NodeContext
  miner :: MinerContext
  fDIP0003Active_context :: bool
  fDIP0008Active_context :: bool
  mineableCommitments :: "64 word list"
  GetBlockSubsidy :: "32 word \<Rightarrow> int \<Rightarrow> CAmount"
  swapAddresses :: "(string \<times> CAmount) list"
  nFortunePayment :: FortunePayment
  CalcCbTxMerkleRootMNList :: cbtx_outcome
  CalcCbTxMerkleRootQuorums :: bool
  GetSmartnodeTxOuts :: "int \<Rightarrow> CAmount \<Rightarrow> CAmount \<Rightarrow> CTxOut list"
  GetSuperblockPayments :: "int \<Rightarrow> CTxOut list"
  TestBlockValidity :: "CTransactionRef list \<Rightarrow> bool"
  GetLegacySigOpCount :: "CMutableTransaction \<Rightarrow> int"

record CBlockTemplate =
  block_vtx :: "CTransactionRef list"
  block_txoutFortune :: CTxOut
  block_hashPrevBlock :: uint256
  template_vTxFees :: "CAmount list"
  template_vSpecialTxFees :: "CAmount list"
  template_vTxSigOps :: "int list"
  voutSmartnodePayments :: "CTxOut list"
  voutSuperblockPayments :: "CTxOut list"
  nPrevBits :: "32 word"
  nLastBlockTx :: "64 word"
  nLastBlockSize :: "64 word"
  nLastBlockSigOps :: "32 word"

definition ChainActive_Tip :: "NodeContext \<Rightarrow> CBlockIndex option" where
  "ChainActive_Tip env = (if vChain env = [] then None else Some (last (vChain env)))"

text \<open>The loop over the enabled quorum parameters: each mineable commitment is appended.\<close>

fun addCommitments :: "64 word list \<Rightarrow> BlockAssembler \<Rightarrow> BlockAssembler" where
  "addCommitments [] B = B"
| "addCommitments (qcSize # qcs) B =
     addCommitments qcs
       (B\<lparr>vtx := vtx B @ [TxQuorumCommitment qcSize],
          vTxFees := vTxFees B @ [0],
          vSpecialTxFees := vSpecialTxFees B @ [0],
          vTxSigOps := vTxSigOps B @ [0],
          nBlockSize := nBlockSize B + qcSize,
          nBlockTx := nBlockTx B + 1\<rparr>)"

text \<open>
  Modelled from the spec: \<^verbatim>\<open>FillBlockPayments\<close> (smartnode/smartnode-payments.cpp is not
  among the sources).  The spec: the service-provider layer appends zero or more outputs
  according to the external component's own schedule, which is told the normal reward;
  each sub-payment component both appends an output and reduces the remainder output,
  which is always output index 0.
\<close>

definition addSubPayment :: "CMutableTransaction \<Rightarrow> CTxOut \<Rightarrow> error + CMutableTransaction" where
  "addSubPayment txNew payment =
     (case vout txNew of
        [] \<Rightarrow> Inl VoutIndexOutOfRange
      | out0 # outs \<Rightarrow>
          Inr (txNew\<lparr>vout := ((out0\<lparr>nValue := nValue out0 - nValue payment\<rparr>) # outs) @ [payment]\<rparr>))"

fun addSubPayments :: "CMutableTransaction \<Rightarrow> CTxOut list \<Rightarrow> error + CMutableTransaction" where
  "addSubPayments txNew [] = Inr txNew"
| "addSubPayments txNew (payment # payments) =
     (case addSubPayment txNew payment of
        Inl e \<Rightarrow> Inl e
      | Inr txNew' \<Rightarrow> addSubPayments txNew' payments)"

definition FillBlockPayments ::
  "BlockContext \<Rightarrow> CMutableTransaction \<Rightarrow> int \<Rightarrow> CAmount \<Rightarrow> CAmount
     \<Rightarrow> error + (CMutableTransaction \<times> CTxOut list \<times> CTxOut list)" where
  "FillBlockPayments bc txNew nBlockHeight blockReward specialTxFees =
     (let voutSmartnodePaymentsRet = GetSmartnodeTxOuts bc nBlockHeight blockReward specialTxFees;
          voutSuperblockPaymentsRet = GetSuperblockPayments bc nBlockHeight
      in case addSubPayments txNew (voutSmartnodePaymentsRet @ voutSuperblockPaymentsRet) of
           Inl e \<Rightarrow> Inl e
         | Inr txNew' \<Rightarrow> Inr (txNew', voutSmartnodePaymentsRet, voutSuperblockPaymentsRet))"

text \<open>The outputs of the first block: one per entry of the table, in map order.\<close>

definition swapOutputs :: "NodeContext \<Rightarrow> (string \<times> CAmount) list \<Rightarrow> CTxOut list" where
  "swapOutputs env table =
     map (\<lambda>reward. \<lparr>nValue = snd reward,
                     scriptPubKey = GetScriptForDestination env (DecodeDestination env (fst reward))\<rparr>)
       table"

text \<open>
  The coinbase composer: the part of \<^verbatim>\<open>CreateNewBlock\<close> from ``Create coinbase
  transaction'' to the call of \<^verbatim>\<open>FillFortunePayment\<close>.  It yields the coinbase, the two
  payment lists and the fortune output.
\<close>

definition coinbasePayload :: "BlockContext \<Rightarrow> error + unit" where
  "coinbasePayload bc =
     (if \<not> fDIP0003Active_context bc then Inr ()
      else if CalcCbTxMerkleRootMNList bc = CbTxFailed
      then Inl (RuntimeError ''CalcCbTxMerkleRootMNList failed'')
      else if fDIP0008Active_context bc \<and> \<not> CalcCbTxMerkleRootQuorums bc
      then Inl (RuntimeError ''CalcCbTxMerkleRootQuorums failed'')
      else Inr ())"

definition composeCoinbase ::
  "BlockContext \<Rightarrow> CBlockIndex \<Rightarrow> BlockAssembler \<Rightarrow> CScript
     \<Rightarrow> error + (CMutableTransaction \<times> CTxOut list \<times> CTxOut list \<times> CTxOut)" where
  "composeCoinbase bc pindexPrev B scriptPubKeyIn =
     (let height = CBlockIndex.nHeight pindexPrev + 1;
          normalBlockReward =
            nFees B + GetBlockSubsidy bc (nBits pindexPrev) (CBlockIndex.nHeight pindexPrev);
          blockRewardWithSpecialtx = normalBlockReward + nSpecialTxFees B;
          coinbaseTx =
            (if height = 1 then \<lparr>vout = swapOutputs (node bc) (swapAddresses bc)\<rparr>
             else \<lparr>vout = [\<lparr>nValue = blockRewardWithSpecialtx, scriptPubKey = scriptPubKeyIn\<rparr>]\<rparr>)
      in case coinbasePayload bc of
           Inl e \<Rightarrow> Inl e
         | Inr _ \<Rightarrow>
             (case FillBlockPayments bc coinbaseTx height normalBlockReward (nSpecialTxFees B) of
                Inl e \<Rightarrow> Inl e
              | Inr (coinbaseTx, voutSmartnode, voutSuperblock) \<Rightarrow>
                  (case FillFortunePayment (node bc) (nFortunePayment bc) coinbaseTx height
                          normalBlockReward of
                     Inl e \<Rightarrow> Inl e
                   | Inr (fortunePayment, coinbaseTx, txoutFortune) \<Rightarrow>
                       Inr (coinbaseTx, voutSmartnode, voutSuperblock, txoutFortune))))"

text \<open>
  \<^verbatim>\<open>CreateNewBlock\<close>.  \<open>prepareBlock\<close> is its beginning, up to the call of
  \<^verbatim>\<open>addPackageTxs\<close>: the reset, the placeholder for the coinbase and the quorum
  commitments.  Times and difficulty bits of the header are not modelled.  The globals
  \<^verbatim>\<open>nLastBlockTx\<close> and \<^verbatim>\<open>nLastBlockSize\<close> that the function writes, and the sigop total
  that it logs with them, are returned with the template.  An exception or a failed
  assertion is an \<open>Inl\<close>.
\<close>

definition prepareBlock :: "BlockContext \<Rightarrow> Options \<Rightarrow> BlockAssembler" where
  "prepareBlock bc options =
     (let B = resetBlock (BlockAssembler_init (miner bc) options);
          B = B\<lparr>vtx := [TxNull], vTxFees := [-1], vSpecialTxFees := [-1], vTxSigOps := [-1]\<rparr>
      in if fDIP0003Active_context bc then addCommitments (mineableCommitments bc) B else B)"

definition CreateNewBlock :: "BlockContext \<Rightarrow> Options \<Rightarrow> CScript \<Rightarrow> error + CBlockTemplate" where
  "CreateNewBlock bc options scriptPubKeyIn =
     (case ChainActive_Tip (node bc) of
        None \<Rightarrow> Inl (AssertionFailed ''pindexPrev != nullptr'')
      | Some pindexPrev \<Rightarrow>
          (case addPackageTxs (miner bc) (prepareBlock bc options) of
             Aborted \<Rightarrow> Inl (AssertionFailed ''!inBlock.count(iter)'')
           | Returned reason B L \<Rightarrow>
               (case composeCoinbase bc pindexPrev B scriptPubKeyIn of
                  Inl e \<Rightarrow> Inl e
                | Inr (coinbaseTx, voutSmartnode, voutSuperblock, txoutFortune) \<Rightarrow>
                    if \<not> TestBlockValidity bc ((vtx B)[0 := TxCoinbase coinbaseTx])
                    then Inl (RuntimeError ''TestBlockValidity failed'')
                    else Inr \<lparr>block_vtx = (vtx B)[0 := TxCoinbase coinbaseTx],
                              block_txoutFortune = txoutFortune,
                              block_hashPrevBlock = hashBlock pindexPrev,
                              template_vTxFees = (vTxFees B)[0 := - nFees B],
                              template_vSpecialTxFees =
                                (vSpecialTxFees B)[0 := - nSpecialTxFees B],
                              template_vTxSigOps =
                                (vTxSigOps B)[0 := GetLegacySigOpCount bc coinbaseTx],
                              voutSmartnodePayments = voutSmartnode,
                              voutSuperblockPayments = voutSuperblock,
                              nPrevBits = nBits pindexPrev,
                              nLastBlockTx = nBlockTx B,
                              nLastBlockSize = nBlockSize B,
                              nLastBlockSigOps = nBlockSigOps B\<rparr>)))"

section \<open>Vocabulary of the properties\<close>

text \<open>The entry the tracker stands for: its own when present, the pool's otherwise.\<close>
definition trackedFigures ::
  "CTxMemPool \<Rightarrow> indexed_modified_transaction_set \<Rightarrow> txiter \<Rightarrow> CTxMemPoolModifiedEntry" where
  "trackedFigures pool m d =
     (case mod_find m d of None \<Rightarrow> CTxMemPoolModifiedEntry_of pool d | Some e \<Rightarrow> e)"

text \<open>
  The committed transactions, in the order of the committed set, of which \<open>d\<close> is an
  in-pool descendant.
\<close>

definition committedParents :: "CTxMemPool \<Rightarrow> txiter list \<Rightarrow> txiter \<Rightarrow> txiter list" where
  "committedParents pool alreadyAdded d =
     filter (\<lambda>it. d \<in> set (CalculateDescendants pool it)) alreadyAdded"

text \<open>The ancestor fee-rate of a pool entry, from the pool's own aggregate figures.\<close>

definition poolFeeRate :: "CTxMemPool \<Rightarrow> txiter \<Rightarrow> rat" where
  "poolFeeRate pool t =
     of_int (GetModFeesWithAncestors (entry pool t))
       / of_nat (unat (GetSizeWithAncestors (entry pool t)))"


text \<open>The pool transactions of a block, in block order.\<close>

fun mempoolTxs :: "CTransactionRef list \<Rightarrow> txiter list" where
  "mempoolTxs [] = []"
| "mempoolTxs (TxMempool t # txs) = t # mempoolTxs txs"
| "mempoolTxs (tx # txs) = mempoolTxs txs"

text \<open>
  A consistent snapshot of the pool's ancestry: the in-pool ancestors of a pool entry are
  pool entries, listed once each, the entry is not its own ancestor, and an ancestor of an
  ancestor is an ancestor.
\<close>

definition ancestry_consistent :: "CTxMemPool \<Rightarrow> bool" where
  "ancestry_consistent pool \<longleftrightarrow>
     (\<forall>t \<in> set (mapTx_ancestor_score pool).
        distinct (CalculateMemPoolAncestors pool t) \<and>
        t \<notin> set (CalculateMemPoolAncestors pool t) \<and>
        set (CalculateMemPoolAncestors pool t) \<subseteq> set (mapTx_ancestor_score pool) \<and>
        (\<forall>a \<in> set (CalculateMemPoolAncestors pool t).
           set (CalculateMemPoolAncestors pool a) \<subseteq> set (CalculateMemPoolAncestors pool t)))"

text \<open>
  What the loop relies on in the block it extends: the pool transactions of the block are
  exactly the members of \<^verbatim>\<open>inBlock\<close>, each once, and \<^verbatim>\<open>inBlock\<close> holds the in-pool ancestors
  of its members.  \<open>tracker_consistent\<close> is the part of the loop invariant that speaks of
  the locals.
\<close>

definition block_consistent :: "CTxMemPool \<Rightarrow> BlockAssembler \<Rightarrow> bool" where
  "block_consistent pool B \<longleftrightarrow>
     distinct (mempoolTxs (vtx B)) \<and>
     set (mempoolTxs (vtx B)) = set (inBlock B) \<and>
     (\<forall>d \<in> set (inBlock B). set (CalculateMemPoolAncestors pool d) \<subseteq> set (inBlock B))"

definition tracker_consistent :: "CTxMemPool \<Rightarrow> BlockAssembler \<Rightarrow> SelectionLoop \<Rightarrow> bool" where
  "tracker_consistent pool B L \<longleftrightarrow>
     set (mi L) \<subseteq> set (mapTx_ancestor_score pool) \<and>
     iter ` set (mapModifiedTx L) \<subseteq> set (mapTx_ancestor_score pool) \<and>
     distinct (map iter (mapModifiedTx L)) \<and>
     set (inBlock B) \<inter> iter ` set (mapModifiedTx L) = {}"

text \<open>
  The pool's count of an entry with its ancestors agrees with its ancestor set.
  \<open>ancestors_first\<close>: every in-pool ancestor of a member of the list stands before it.
  \<open>topological\<close>: no member of the list stands before one of its in-pool ancestors.
\<close>

definition counts_consistent :: "CTxMemPool \<Rightarrow> bool" where
  "counts_consistent pool \<longleftrightarrow>
     (\<forall>t \<in> set (mapTx_ancestor_score pool).
        unat (GetCountWithAncestors (entry pool t))
          = length (CalculateMemPoolAncestors pool t) + 1)"

definition ancestors_first :: "CTxMemPool \<Rightarrow> txiter list \<Rightarrow> bool" where
  "ancestors_first pool ts \<longleftrightarrow>
     (\<forall>i < length ts. set (CalculateMemPoolAncestors pool (ts ! i)) \<subseteq> set (take i ts))"

definition topological :: "CTxMemPool \<Rightarrow> txiter list \<Rightarrow> bool" where
  "topological pool ts \<longleftrightarrow>
     (\<forall>i j. i < j \<and> j < length ts \<longrightarrow> ts ! j \<notin> set (CalculateMemPoolAncestors pool (ts ! i)))"

text \<open>
  The capacity invariant.  \<open>txSize\<close> and \<open>txSigOps\<close> are the isolated size and sigop count
  of a pool transaction as natural numbers.  The pool's aggregates are \<open>consistent\<close> when
  the aggregate size and sigop count of an entry are the sums over its in-pool ancestors
  and itself, and \<open>bounded\<close> when adding an aggregate to a total below the maxima cannot
  wrap around.  \<open>below_limits\<close>: the block's running totals are strictly below the
  maxima.  \<open>covered f v A whole\<close>: the figure \<open>v\<close> is \<open>whole\<close> less the \<open>f\<close> of some members
  of \<open>A\<close>; \<open>entry_covers\<close> says so of the size and the sigop count of a tracker entry, for
  the ancestors of its transaction that are in the block.
\<close>

definition covered :: "(txiter \<Rightarrow> nat) \<Rightarrow> nat \<Rightarrow> txiter set \<Rightarrow> nat \<Rightarrow> bool" where
  "covered f v A whole \<longleftrightarrow> (\<exists>C. C \<subseteq> A \<and> v + sum f C = whole)"

definition txSize :: "CTxMemPool \<Rightarrow> txiter \<Rightarrow> nat" where
  "txSize pool t = unat (GetTxSize (entry pool t))"

definition txSigOps :: "CTxMemPool \<Rightarrow> txiter \<Rightarrow> nat" where
  "txSigOps pool t = unat (GetSigOpCount (entry pool t))"

definition aggregates_consistent :: "CTxMemPool \<Rightarrow> bool" where
  "aggregates_consistent pool \<longleftrightarrow>
     (\<forall>t \<in> set (mapTx_ancestor_score pool).
        unat (GetSizeWithAncestors (entry pool t))
          = sum_list (map (txSize pool) (CalculateMemPoolAncestors pool t)) + txSize pool t \<and>
        unat (GetSigOpCountWithAncestors (entry pool t))
          = sum_list (map (txSigOps pool) (CalculateMemPoolAncestors pool t)) + txSigOps pool t)"

definition aggregates_bounded :: "MinerContext \<Rightarrow> bool" where
  "aggregates_bounded ctx \<longleftrightarrow>
     (\<forall>t \<in> set (mapTx_ancestor_score (m_mempool ctx)).
        unat (GetSizeWithAncestors (entry (m_mempool ctx) t)) < 2 ^ 63 \<and>
        unat (GetSigOpCountWithAncestors (entry (m_mempool ctx) t)) + unat (MaxBlockSigOps ctx)
          \<le> 2 ^ 32)"

definition below_limits :: "MinerContext \<Rightarrow> BlockAssembler \<Rightarrow> bool" where
  "below_limits ctx B \<longleftrightarrow>
     unat (nBlockSize B) < unat (nBlockMaxSize B) \<and>
     unat (nBlockSigOps B) < unat (MaxBlockSigOps ctx)"

definition entry_covers :: "CTxMemPool \<Rightarrow> BlockAssembler \<Rightarrow> CTxMemPoolModifiedEntry \<Rightarrow> bool" where
  "entry_covers pool B e \<longleftrightarrow>
     covered (txSize pool) (unat (nSizeWithAncestors e))
       (set (CalculateMemPoolAncestors pool (iter e)) \<inter> set (inBlock B))
       (unat (GetSizeWithAncestors (entry pool (iter e)))) \<and>
     covered (txSigOps pool) (unat (nSigOpCountWithAncestors e))
       (set (CalculateMemPoolAncestors pool (iter e)) \<inter> set (inBlock B))
       (unat (GetSigOpCountWithAncestors (entry pool (iter e))))"

definition tracker_covers :: "CTxMemPool \<Rightarrow> BlockAssembler \<Rightarrow> SelectionLoop \<Rightarrow> bool" where
  "tracker_covers pool B L \<longleftrightarrow> (\<forall>e \<in> set (mapModifiedTx L). entry_covers pool B e)"

definition capacity_invariant ::
  "MinerContext \<Rightarrow> BlockAssembler \<Rightarrow> BlockAssembler \<Rightarrow> SelectionLoop \<Rightarrow> bool" where
  "capacity_invariant ctx B0 B L \<longleftrightarrow>
     block_consistent (m_mempool ctx) B \<and> tracker_consistent (m_mempool ctx) B L \<and>
     tracker_covers (m_mempool ctx) B L \<and> below_limits ctx B \<and>
     nBlockMaxSize B = nBlockMaxSize B0"

text \<open>
  The fee-rate cutoff.  The tracker is \<open>sorted\<close> when its entries stand in descending
  order of ancestor fee-rate, a list of pool handles when the pool's ancestor fee-rates
  descend along it.  \<open>acceptedPackage\<close> is the package that a pass of the loop commits,
  when it commits one.
\<close>

definition tracker_sorted :: "indexed_modified_transaction_set \<Rightarrow> bool" where
  "tracker_sorted m \<longleftrightarrow> sorted_wrt (\<lambda>a b. ancestorFeeRate b \<le> ancestorFeeRate a) m"

definition index_sorted :: "CTxMemPool \<Rightarrow> txiter list \<Rightarrow> bool" where
  "index_sorted pool ts \<longleftrightarrow> sorted_wrt (\<lambda>a b. poolFeeRate pool b \<le> poolFeeRate pool a) ts"

definition sizes_positive :: "CTxMemPool \<Rightarrow> bool" where
  "sizes_positive pool \<longleftrightarrow> (\<forall>t \<in> set (mapTx_ancestor_score pool). 0 < txSize pool t)"

definition cutoff_invariant ::
  "MinerContext \<Rightarrow> BlockAssembler \<Rightarrow> BlockAssembler \<Rightarrow> SelectionLoop \<Rightarrow> bool" where
  "cutoff_invariant ctx B0 B L \<longleftrightarrow>
     block_consistent (m_mempool ctx) B \<and> tracker_consistent (m_mempool ctx) B L \<and>
     tracker_covers (m_mempool ctx) B L \<and> tracker_sorted (mapModifiedTx L) \<and>
     index_sorted (m_mempool ctx) (mi L) \<and> blockMinFeeRate B = blockMinFeeRate B0"

definition acceptedPackage ::
  "MinerContext \<Rightarrow> BlockAssembler \<Rightarrow> SelectionLoop \<Rightarrow> CTxMemPoolModifiedEntry option" where
  "acceptedPackage ctx B L =
     (if mi L \<noteq> [] \<and> SkipMapTxEntry B (hd (mi L)) (mapModifiedTx L) (failedTx L) then None
      else case SelectCandidate (m_mempool ctx) (mi L) (mapModifiedTx L) of
             None \<Rightarrow> None
           | Some (package, fUsingModified, mi') \<Rightarrow>
               if iter package \<in> set (inBlock B) then None
               else if nModFeesWithAncestors package
                         < CFeeRate_GetFee (blockMinFeeRate B) (nSizeWithAncestors package)
               then None
               else if \<not> TestPackage ctx B (nSizeWithAncestors package)
                            (nSigOpCountWithAncestors package)
               then None
               else if \<not> TestPackageTransactions ctx
                            (packageAncestors (m_mempool ctx) B (iter package))
               then None
               else Some package)"

text \<open>
  The rule on output values that the final validity test enforces for a block: no output
  of its coinbase has a negative value.  \<^verbatim>\<open>TestBlockValidity\<close> itself is a parameter; this is
  the property of it that the coinbase composer relies on.
\<close>

definition outputs_nonnegative :: "CTransactionRef list \<Rightarrow> bool" where
  "outputs_nonnegative txs =
     list_all (\<lambda>tx. case tx of TxCoinbase cb \<Rightarrow> list_all (\<lambda>out. 0 \<le> nValue out) (vout cb)
                               | _ \<Rightarrow> True) txs"

section \<open>Example data\<close>

text \<open>
  A chain of three blocks, an address codec that accepts every non-empty address, and
  the main-net fortune schedule (5 per cent for ever, start block 0).
\<close>

definition example_node :: NodeContext where
  "example_node =
     \<lparr>vChain = [\<lparr>nHeight = 0, hashBlock = 7, nBits = 0\<rparr>,
                \<lparr>nHeight = 1, hashBlock = 12, nBits = 0\<rparr>,
                \<lparr>nHeight = 2, hashBlock = 2 ^ 65 + 5, nBits = 0\<rparr>],
      DecodeDestination = (\<lambda>a. if a = [] then CNoDestination else Destination (length a)),
      GetScriptForDestination =
        (\<lambda>d. case d of CNoDestination \<Rightarrow> [] | Destination n \<Rightarrow> [of_nat n]),
      GetBlockCoinbaseMinerAddress =
        (\<lambda>h. if h = 0 then ''miner0'' else if h = 1 then ''miner01'' else ''miner002'')\<rparr>"

definition example_fortune :: FortunePayment where
  "example_fortune =
     \<lparr>fortuneAddress = DEFAULT_FORTUNE_ADDRESS, startBlock = 0,
      rewardStructures = [\<lparr>blockHeight = INT_MAX, rewardPercentage = 5\<rparr>]\<rparr>"

text \<open>
  An empty pool, a block context at height 3 whose service-provider schedule names one
  output, the same context on a chain that has only its genesis block (the next block is
  the first), the context at height 3 with a validity test that refuses negative
  coinbase outputs, and that context with a service-provider schedule that takes nearly
  everything.
\<close>

definition example_pool_empty :: CTxMemPool where
  "example_pool_empty =
     \<lparr>mapTx_ancestor_score = [],
      entry = (\<lambda>t. \<lparr>GetTxSize = 0, GetFee = 0, GetModifiedFee = 0, GetSpecialTxFee = 0,
                     GetSigOpCount = 0, GetCountWithAncestors = 0, GetSizeWithAncestors = 0,
                     GetModFeesWithAncestors = 0, GetSigOpCountWithAncestors = 0\<rparr>),
      CalculateMemPoolAncestors = (\<lambda>t. [])\<rparr>"

definition example_miner :: MinerContext where
  "example_miner =
     \<lparr>m_mempool = example_pool_empty, IsFinalTx = (\<lambda>t. True), IsTxSafeForMining = (\<lambda>t. True),
      MaxBlockSigOps = 40000, MaxBlockSize = 2000000\<rparr>"

definition example_options :: Options where
  "example_options = \<lparr>options_blockMinFeeRate = 1, options_nBlockMaxSize = 2000000\<rparr>"

definition example_bc :: BlockContext where
  "example_bc =
     \<lparr>node = example_node, miner = example_miner,
      fDIP0003Active_context = True, fDIP0008Active_context = True,
      mineableCommitments = [300],
      GetBlockSubsidy = (\<lambda>bits h. 5000),
      swapAddresses = [(''Fa'', 5), (''Fbb'', 7)],
      nFortunePayment = example_fortune,
      CalcCbTxMerkleRootMNList = CbTxOk, CalcCbTxMerkleRootQuorums = True,
      GetSmartnodeTxOuts = (\<lambda>h reward special. [\<lparr>nValue = 1000, scriptPubKey = [8]\<rparr>]),
      GetSuperblockPayments = (\<lambda>h. []),
      TestBlockValidity = (\<lambda>txs. True),
      GetLegacySigOpCount = (\<lambda>tx. 1)\<rparr>"

definition example_bc_first :: BlockContext where
  "example_bc_first =
     example_bc\<lparr>node := example_node\<lparr>vChain := [\<lparr>nHeight = 0, hashBlock = 7, nBits = 0\<rparr>]\<rparr>,
                GetSmartnodeTxOuts := (\<lambda>h reward special. [])\<rparr>"

definition example_bc_checked :: BlockContext where
  "example_bc_checked = example_bc\<lparr>TestBlockValidity := outputs_nonnegative\<rparr>"

definition example_bc_overpaid :: BlockContext where
  "example_bc_overpaid =
     example_bc_checked\<lparr>GetSmartnodeTxOuts :=
                          (\<lambda>h reward special. [\<lparr>nValue = 4900, scriptPubKey = [8]\<rparr>])\<rparr>"

text \<open>
  A pool of four entries: 0 is the parent of 1, 2 descends from both, 3 stands alone.
  Ancestor fee-rates are 5, 5, 4 and 2, and the index is in that order.
\<close>

definition mkEntry ::
  "nat \<Rightarrow> int \<Rightarrow> nat \<Rightarrow> nat \<Rightarrow> nat \<Rightarrow> int \<Rightarrow> nat \<Rightarrow> CTxMemPoolEntry" where
  "mkEntry sz fee sigops cnt asz afee asigops =
     \<lparr>GetTxSize = of_nat sz, GetFee = fee, GetModifiedFee = fee, GetSpecialTxFee = 0,
      GetSigOpCount = of_nat sigops, GetCountWithAncestors = of_nat cnt,
      GetSizeWithAncestors = of_nat asz, GetModFeesWithAncestors = afee,
      GetSigOpCountWithAncestors = of_nat asigops\<rparr>"

definition example_pool :: CTxMemPool where
  "example_pool =
     \<lparr>mapTx_ancestor_score = [0, 1, 2, 3],
      entry = (\<lambda>t. if t = 0 then mkEntry 100 500 1 1 100 500 1
                    else if t = 1 then mkEntry 200 1000 1 2 300 1500 2
                    else if t = 2 then mkEntry 150 300 1 3 450 1800 3
                    else mkEntry 120 240 1 1 120 240 1),
      CalculateMemPoolAncestors =
        (\<lambda>t. if t = 1 then [0] else if t = 2 then [0, 1] else [])\<rparr>"

text \<open>
  A pool that is a chain: 0 is the parent of 1 and 1 of 2, and the child 2 pays for all
  three, so that it heads the index and its package has three members.
\<close>

definition example_pool_chain :: CTxMemPool where
  "example_pool_chain =
     \<lparr>mapTx_ancestor_score = [2, 0, 1],
      entry = (\<lambda>t. if t = 0 then mkEntry 100 100 1 1 100 100 1
                    else if t = 1 then mkEntry 100 100 1 2 200 200 2
                    else mkEntry 100 2800 1 3 300 3000 3),
      CalculateMemPoolAncestors =
        (\<lambda>t. if t = 1 then [0] else if t = 2 then [1, 0] else [])\<rparr>"

definition example_ctx_chain :: MinerContext where
  "example_ctx_chain = example_miner\<lparr>m_mempool := example_pool_chain\<rparr>"

text \<open>The miner's context over the pool of four entries, and a prepared block.\<close>

definition example_ctx :: MinerContext where
  "example_ctx = example_miner\<lparr>m_mempool := example_pool\<rparr>"

definition example_block :: BlockAssembler where
  "example_block = prepareBlock (example_bc\<lparr>miner := example_ctx\<rparr>) example_options"

text \<open>
  Options that ask for a block of at most 1000 bytes, and the block context without
  quorum commitments.
\<close>

definition example_options_small :: Options where
  "example_options_small = \<lparr>options_blockMinFeeRate = 1, options_nBlockMaxSize = 1000\<rparr>"

definition example_bc_small :: BlockContext where
  "example_bc_small = example_bc\<lparr>mineableCommitments := []\<rparr>"

text \<open>The prepared block with a minimum fee-rate of 3.\<close>

definition example_block_cutoff :: BlockAssembler where
  "example_block_cutoff = example_block\<lparr>blockMinFeeRate := 3\<rparr>"

lemmas example_defs = example_bc_def example_bc_first_def example_bc_checked_def
  example_bc_overpaid_def
  example_miner_def example_pool_empty_def example_options_def example_node_def
  example_fortune_def

lemmas assembler_defs = CreateNewBlock_def prepareBlock_def resetBlock_def BlockAssembler_init_def
  ChainActive_Tip_def addPackageTxs_def initialLoop_def UpdatePackagesForAdded_def
  addPackageTxs_loop.simps
  loop_body_def composeCoinbase_def coinbasePayload_def FillBlockPayments_def addSubPayment_def
  FillFortunePayment_def GetFortuneAddressByHeight_def ChainActive_Height_def ChainActive_at_def
  luckyHeightOf_def hashXor_def GetUint64_def getFortunePaymentAmount_def INT_MAX_def
  signed_divide_int_def IsValidDestination_def swapOutputs_def Let_def

lemmas loop_defs = addPackageTxs_def initialLoop_def UpdatePackagesForAdded_def
  CalculateDescendants_def addPackageTxs_loop.simps loop_body_def SkipMapTxEntry_def mod_count_def
  SelectCandidate_def CTxMemPoolModifiedEntry_of_def considerPackage_def Let_def
  CFeeRate_GetFee_def TestPackage_def packageAncestors_def onlyUnconfirmed_def commitPackage_def
  SortForBlock_def AddToBlock_def mod_erase_def adjustDescendant_def mod_find_def mod_insert_def
  mod_modify_def mod_in_place_def update_for_parent_inclusion_def
  CompareTxMemPoolEntryByAncestorFee_def ancestorFeeRate_def packageFailed_def
  MAX_CONSECUTIVE_FAILURES_def

section \<open>The loop: case analysis and invariants\<close>

declare addPackageTxs_loop.simps [simp del]

lemma loop_body_ContinueE:
  assumes "loop_body ctx B L = Continue B' L'"
  obtains
    (skip) "mi L \<noteq> []" "SkipMapTxEntry B (hd (mi L)) (mapModifiedTx L) (failedTx L)"
           "B' = B" "L' = L\<lparr>mi := tl (mi L)\<rparr>"
  | (fail) package fUsingModified mi' where
      "SelectCandidate (m_mempool ctx) (mi L) (mapModifiedTx L) = Some (package, fUsingModified, mi')"
      "\<not> (mi L \<noteq> [] \<and> SkipMapTxEntry B (hd (mi L)) (mapModifiedTx L) (failedTx L))"
      "iter package \<notin> set (inBlock B)" "B' = B"
      "mapModifiedTx L' = mapModifiedTx (packageFailed (L\<lparr>mi := mi'\<rparr>) fUsingModified (iter package))"
      "failedTx L' = failedTx (packageFailed (L\<lparr>mi := mi'\<rparr>) fUsingModified (iter package))"
      "mi L' = mi'"
  | (commit) package fUsingModified mi' where
      "SelectCandidate (m_mempool ctx) (mi L) (mapModifiedTx L) = Some (package, fUsingModified, mi')"
      "\<not> (mi L \<noteq> [] \<and> SkipMapTxEntry B (hd (mi L)) (mapModifiedTx L) (failedTx L))"
      "iter package \<notin> set (inBlock B)"
      "\<not> nModFeesWithAncestors package
           < CFeeRate_GetFee (blockMinFeeRate B) (nSizeWithAncestors package)"
      "TestPackage ctx B (nSizeWithAncestors package) (nSigOpCountWithAncestors package)"
      "TestPackageTransactions ctx (packageAncestors (m_mempool ctx) B (iter package))"
      "commitPackage (m_mempool ctx) B (L\<lparr>mi := mi'\<rparr>)
         (packageAncestors (m_mempool ctx) B (iter package)) = (B', L')"
proof (cases "mi L \<noteq> [] \<and> SkipMapTxEntry B (hd (mi L)) (mapModifiedTx L) (failedTx L)")
  case True
  with assms show ?thesis
    by (intro skip) (auto simp: loop_body_def split: if_splits)
next
  case False
  with assms obtain package fUsingModified mi' where
    sel: "SelectCandidate (m_mempool ctx) (mi L) (mapModifiedTx L) = Some (package, fUsingModified, mi')"
    and cont: "considerPackage ctx B (L\<lparr>mi := mi'\<rparr>) package fUsingModified = Continue B' L'"
    by (auto simp: loop_body_def split: if_splits option.splits)
  let ?L0 = "L\<lparr>mi := mi'\<rparr>" and ?it = "iter package"
  let ?F = "packageFailed ?L0 fUsingModified ?it"
  from cont have nin: "?it \<notin> set (inBlock B)"
    by (auto simp: considerPackage_def Let_def split: if_splits)
  have miF: "mi ?F = mi'" by (simp add: packageFailed_def)
  have fee: "\<not> nModFeesWithAncestors package
           < CFeeRate_GetFee (blockMinFeeRate B) (nSizeWithAncestors package)"
    using cont nin by (auto simp: considerPackage_def Let_def split: if_splits)
  consider (a) "B' = B" "L' = ?F\<lparr>nConsecutiveFailed := nConsecutiveFailed ?F + 1\<rparr>"
    | (b) "B' = B" "L' = ?F"
    | (c) "\<not> nModFeesWithAncestors package
           < CFeeRate_GetFee (blockMinFeeRate B) (nSizeWithAncestors package)"
      "TestPackage ctx B (nSizeWithAncestors package) (nSigOpCountWithAncestors package)"
      "TestPackageTransactions ctx (packageAncestors (m_mempool ctx) B ?it)"
      "commitPackage (m_mempool ctx) B ?L0 (packageAncestors (m_mempool ctx) B ?it) = (B', L')"
  proof (cases "TestPackage ctx B (nSizeWithAncestors package) (nSigOpCountWithAncestors package)")
    case False
    then have "B' = B" "L' = ?F\<lparr>nConsecutiveFailed := nConsecutiveFailed ?F + 1\<rparr>"
      using cont nin fee by (auto simp: considerPackage_def Let_def split: if_splits)
    then show ?thesis by (rule a)
  next
    case True
    show ?thesis
    proof (cases "TestPackageTransactions ctx (packageAncestors (m_mempool ctx) B ?it)")
      case False
      then have "B' = B" "L' = ?F"
        using cont nin fee True by (auto simp: considerPackage_def Let_def split: if_splits)
      then show ?thesis by (rule b)
    next
      case T2: True
      obtain B2 L2 where cp: "commitPackage (m_mempool ctx) B ?L0 (packageAncestors (m_mempool ctx) B ?it) = (B2, L2)"
        by (cases "commitPackage (m_mempool ctx) B ?L0 (packageAncestors (m_mempool ctx) B ?it)")
      have "Continue B2 L2 = Continue B' L'"
        using cont nin fee True T2 cp by (simp add: considerPackage_def Let_def)
      then have "commitPackage (m_mempool ctx) B ?L0 (packageAncestors (m_mempool ctx) B ?it) = (B', L')"
        using cp by simp
      then show ?thesis using fee True T2 by (intro c)
    qed
  qed
  then show ?thesis
  proof cases
    case a
    show ?thesis by (rule fail[OF sel False nin]) (simp_all add: a miF)
  next
    case b
    show ?thesis by (rule fail[OF sel False nin]) (simp_all add: b miF)
  next
    case c
    show ?thesis by (rule commit[OF sel False nin c])
  qed
qed

lemma loop_body_Exit:
  assumes "loop_body ctx B L = Exit r B' L'"
  shows "B' = B"
  using assms
  by (auto simp: loop_body_def considerPackage_def Let_def split: if_splits option.splits prod.splits)

lemma addPackageTxs_loop_invariant:
  assumes "addPackageTxs_loop ctx B L = Returned r B' L'"
    and "P B L"
    and "\<And>B L B1 L1. P B L \<Longrightarrow> loop_body ctx B L = Continue B1 L1 \<Longrightarrow> P B1 L1"
  shows "\<exists>L2. P B' L2 \<and> loop_body ctx B' L2 = Exit r B' L'"
  using assms
proof (induction ctx B L rule: addPackageTxs_loop.induct)
  case (1 ctx B L)
  show ?case
  proof (cases "loop_body ctx B L")
    case (Continue B1 L1)
    then have "addPackageTxs_loop ctx B1 L1 = Returned r B' L'"
      using "1.prems"(1) by (simp add: addPackageTxs_loop.simps[of ctx B L])
    moreover have "P B1 L1" using "1.prems"(2,3) Continue by blast
    ultimately show ?thesis using "1.IH"[OF Continue] "1.prems"(3) by blast
  next
    case (Exit r2 B2 L2)
    then have "r2 = r" "B2 = B'" "L2 = L'"
      using "1.prems"(1) by (simp_all add: addPackageTxs_loop.simps[of ctx B L])
    moreover have "B2 = B" using Exit by (rule loop_body_Exit)
    ultimately show ?thesis using "1.prems"(2) Exit by auto
  next
    case AssertionFailure
    then show ?thesis using "1.prems"(1) by (simp add: addPackageTxs_loop.simps[of ctx B L])
  qed
qed

lemma addSortedEntries_fields:
  "vtx (fst (addSortedEntries pool ts (B, m))) = vtx B @ map TxMempool ts"
  "vTxFees (fst (addSortedEntries pool ts (B, m))) = vTxFees B @ map (\<lambda>t. GetFee (entry pool t)) ts"
  "vSpecialTxFees (fst (addSortedEntries pool ts (B, m)))
     = vSpecialTxFees B @ map (\<lambda>t. GetSpecialTxFee (entry pool t)) ts"
  "vTxSigOps (fst (addSortedEntries pool ts (B, m)))
     = vTxSigOps B @ map (\<lambda>t. uint (GetSigOpCount (entry pool t))) ts"
  "nBlockSize (fst (addSortedEntries pool ts (B, m)))
     = nBlockSize B + sum_list (map (\<lambda>t. GetTxSize (entry pool t)) ts)"
  "nBlockSigOps (fst (addSortedEntries pool ts (B, m)))
     = nBlockSigOps B + sum_list (map (\<lambda>t. GetSigOpCount (entry pool t)) ts)"
  "nFees (fst (addSortedEntries pool ts (B, m)))
     = nFees B + sum_list (map (\<lambda>t. GetFee (entry pool t)) ts)"
  "nSpecialTxFees (fst (addSortedEntries pool ts (B, m)))
     = nSpecialTxFees B + sum_list (map (\<lambda>t. GetSpecialTxFee (entry pool t)) ts)"
  "nBlockMaxSize (fst (addSortedEntries pool ts (B, m))) = nBlockMaxSize B"
  "blockMinFeeRate (fst (addSortedEntries pool ts (B, m))) = blockMinFeeRate B"
  by (induction ts arbitrary: B m; simp add: AddToBlock_def)+

lemma commitPackage_B:
  assumes "commitPackage pool B L anc = (B', L')"
  shows "B' = fst (addSortedEntries pool (SortForBlock pool anc) (B, mapModifiedTx L))"
  using assms by (auto simp: commitPackage_def Let_def split: prod.splits)


section \<open>Properties of the lucky payment\<close>

text \<open>The script that \<^verbatim>\<open>IsBlockPayeeValid\<close> and \<^verbatim>\<open>FillFortunePayment\<close> derive from the address.\<close>

definition expectedPayee :: "NodeContext \<Rightarrow> FortunePayment \<Rightarrow> CScript" where
  "expectedPayee env fp = GetScriptForDestination env (DecodeDestination env (fortuneAddress fp))"

lemma payeeOutputFound_iff:
  "payeeOutputFound outs payee r \<longleftrightarrow>
     (\<exists>out \<in> set outs. scriptPubKey out = payee \<and> nValue out \<ge> r)"
  by (induction outs) auto

lemma GetFortuneAddressByHeight_schedule:
  assumes "GetFortuneAddressByHeight env fp h = Inr fp'"
  shows "startBlock fp' = startBlock fp" and "rewardStructures fp' = rewardStructures fp"
  using assms by (auto simp: GetFortuneAddressByHeight_def split: if_splits option.splits)

lemma luckyHeightOf_arith:
  assumes "0 < CBlockIndex.nHeight b" "CBlockIndex.nHeight b \<le> INT_MAX"
  shows "luckyHeightOf b = int (unat (hashXor (hashBlock b)) mod nat (CBlockIndex.nHeight b))"
proof -
  let ?n = "CBlockIndex.nHeight b"
  let ?x = "hashXor (hashBlock b)"
  have n: "unat (word_of_int ?n :: 64 word) = nat ?n"
    using assms by (simp add: INT_MAX_def unat_eq_nat_uint uint_word_of_int)
  have r: "unat (?x mod (word_of_int ?n :: 64 word)) = unat ?x mod nat ?n"
    by (simp add: unat_mod n)
  have lt: "unat ?x mod nat ?n < 2 ^ 31"
  proof -
    have "unat ?x mod nat ?n < nat ?n" using assms by simp
    also have "nat ?n < 2 ^ 31" using assms by (simp add: INT_MAX_def)
    finally show ?thesis .
  qed
  have "luckyHeightOf b = signed_take_bit 31 (uint (?x mod (word_of_int ?n :: 64 word)))"
    by (simp add: luckyHeightOf_def signed_ucast_eq)
  also have "\<dots> = uint (?x mod (word_of_int ?n :: 64 word))"
    using lt r by (intro signed_take_bit_int_eq_self) (simp_all add: uint_nat)
  also have "\<dots> = int (unat ?x mod nat ?n)"
    using r by (simp add: uint_nat)
  finally show ?thesis .
qed

text \<open>
  Claim C9.  For a block assembled at height \<open>H\<close>, \<^verbatim>\<open>FillFortunePayment\<close> pays the script of
  the address chosen for the effective height \<open>H - 1\<close>: the default fortune address when
  \<open>H - 1\<close> lies outside \<open>[1, chain height]\<close>; otherwise the coinbase miner address of the
  block at the lucky height, which is the xor of the four 64-bit words of the hash of the
  block at \<open>H - 1\<close>, reduced modulo the height field stored in that same block.
\<close>

theorem FillFortunePayment_payee:
  assumes "FillFortunePayment env fp txNew H blockReward = Inr (fp', txNew', txoutFortune)"
  shows "scriptPubKey txoutFortune = expectedPayee env fp' \<and>
         last (vout txNew') = txoutFortune \<and>
         (if H - 1 < 1 \<or> ChainActive_Height env < H - 1
          then fortuneAddress fp' = DEFAULT_FORTUNE_ADDRESS
          else \<exists>b. ChainActive_at env (H - 1) = Some b \<and>
                 fortuneAddress fp' = GetBlockCoinbaseMinerAddress env (luckyHeightOf b) \<and>
                 hashXor (hashBlock b) =
                   GetUint64 (hashBlock b) 0 XOR GetUint64 (hashBlock b) 1 XOR
                   GetUint64 (hashBlock b) 2 XOR GetUint64 (hashBlock b) 3 \<and>
                 (0 < CBlockIndex.nHeight b \<and> CBlockIndex.nHeight b \<le> INT_MAX \<longrightarrow>
                    luckyHeightOf b =
                      int (unat (hashXor (hashBlock b)) mod nat (CBlockIndex.nHeight b))))"
proof -
  from assms obtain out0 outs where
    g: "GetFortuneAddressByHeight env fp (H - 1) = Inr fp'"
    and v: "vout txNew = out0 # outs"
    and t: "txoutFortune = \<lparr>nValue = getFortunePaymentAmount fp (H - 1) blockReward,
                             scriptPubKey = expectedPayee env fp'\<rparr>"
    and n: "vout txNew' = (out0\<lparr>nValue := nValue out0 - nValue txoutFortune\<rparr> # outs) @ [txoutFortune]"
    by (auto simp: FillFortunePayment_def Let_def expectedPayee_def
             split: sum.splits if_splits list.splits)
  have a: "if H - 1 < 1 \<or> ChainActive_Height env < H - 1
          then fortuneAddress fp' = DEFAULT_FORTUNE_ADDRESS
          else \<exists>b. ChainActive_at env (H - 1) = Some b \<and>
                 fortuneAddress fp' = GetBlockCoinbaseMinerAddress env (luckyHeightOf b)"
    using g
    by (auto simp: GetFortuneAddressByHeight_def ChainActive_at_def ChainActive_Height_def
             split: if_splits option.splits)
  show ?thesis
    using a t n by (auto simp: hashXor_def luckyHeightOf_arith)
qed

theorem FillFortunePayment_payee_witness:
  "FillFortunePayment example_node example_fortune
     \<lparr>vout = [\<lparr>nValue = 1000, scriptPubKey = [9]\<rparr>]\<rparr> 3 1000
     = Inr (example_fortune\<lparr>fortuneAddress := ''miner01''\<rparr>,
            \<lparr>vout = [\<lparr>nValue = 950, scriptPubKey = [9]\<rparr>, \<lparr>nValue = 50, scriptPubKey = [7]\<rparr>]\<rparr>,
            \<lparr>nValue = 50, scriptPubKey = [7]\<rparr>) \<and>
   expectedPayee example_node (example_fortune\<lparr>fortuneAddress := ''miner01''\<rparr>) = [7] \<and>
   luckyHeightOf \<lparr>nHeight = 2, hashBlock = 2 ^ 65 + 5, nBits = 0\<rparr> = 1"
proof -
  have h: "FillFortunePayment example_node example_fortune
     \<lparr>vout = [\<lparr>nValue = 1000, scriptPubKey = [9]\<rparr>]\<rparr> 3 1000
     = Inr (example_fortune\<lparr>fortuneAddress := ''miner01''\<rparr>,
            \<lparr>vout = [\<lparr>nValue = 950, scriptPubKey = [9]\<rparr>, \<lparr>nValue = 50, scriptPubKey = [7]\<rparr>]\<rparr>,
            \<lparr>nValue = 50, scriptPubKey = [7]\<rparr>)"
    by (simp add: FillFortunePayment_def GetFortuneAddressByHeight_def example_node_def
        example_fortune_def ChainActive_Height_def ChainActive_at_def luckyHeightOf_def
        hashXor_def GetUint64_def getFortunePaymentAmount_def INT_MAX_def
        signed_divide_int_def IsValidDestination_def Let_def)
  have l: "luckyHeightOf \<lparr>nHeight = 2, hashBlock = 2 ^ 65 + 5, nBits = 0\<rparr> = 1"
    by (simp add: luckyHeightOf_def hashXor_def GetUint64_def)
  show ?thesis
    using h l FillFortunePayment_payee[OF h]
    by (simp add: example_node_def ChainActive_Height_def ChainActive_at_def)
qed

text \<open>
  Claim C10.  Provided the address lookup for the height succeeds, \<^verbatim>\<open>IsBlockPayeeValid\<close>
  returns true exactly when some output of the transaction carries the expected payee
  script and a value not below the expected payment for that height.  So an output that
  pays the payee more than expected is accepted; and at a height not above the start
  block, where the expected payment is zero, every output to the payee with a
  non-negative value suffices, a zero-value output included.
\<close>

theorem IsBlockPayeeValid_iff:
  assumes "GetFortuneAddressByHeight env fp height = Inr fp'"
  shows "IsBlockPayeeValid env fp outs height blockReward =
           Inr (\<exists>out \<in> set outs. scriptPubKey out = expectedPayee env fp' \<and>
                  nValue out \<ge> getFortunePaymentAmount fp height blockReward) \<and>
         (\<forall>out \<in> set outs. scriptPubKey out = expectedPayee env fp' \<and>
                  nValue out > getFortunePaymentAmount fp height blockReward \<longrightarrow>
            IsBlockPayeeValid env fp outs height blockReward = Inr True) \<and>
         (height \<le> startBlock fp \<longrightarrow>
            getFortunePaymentAmount fp height blockReward = 0 \<and>
            IsBlockPayeeValid env fp outs height blockReward =
              Inr (\<exists>out \<in> set outs. scriptPubKey out = expectedPayee env fp' \<and>
                     0 \<le> nValue out))"
proof -
  have "getFortunePaymentAmount fp' height blockReward =
        getFortunePaymentAmount fp height blockReward"
    using GetFortuneAddressByHeight_schedule[OF assms]
    by (simp add: getFortunePaymentAmount_def)
  then have 1: "IsBlockPayeeValid env fp outs height blockReward =
           Inr (\<exists>out \<in> set outs. scriptPubKey out = expectedPayee env fp' \<and>
                  nValue out \<ge> getFortunePaymentAmount fp height blockReward)"
    using assms by (simp add: IsBlockPayeeValid_def payeeOutputFound_iff expectedPayee_def)
  have 2: "\<forall>out \<in> set outs. scriptPubKey out = expectedPayee env fp' \<and>
                  nValue out > getFortunePaymentAmount fp height blockReward \<longrightarrow>
            IsBlockPayeeValid env fp outs height blockReward = Inr True"
    unfolding 1 by force
  have 3: "height \<le> startBlock fp \<longrightarrow>
            getFortunePaymentAmount fp height blockReward = 0 \<and>
            IsBlockPayeeValid env fp outs height blockReward =
              Inr (\<exists>out \<in> set outs. scriptPubKey out = expectedPayee env fp' \<and>
                     0 \<le> nValue out)"
    unfolding 1 by (simp add: getFortunePaymentAmount_def)
  show ?thesis using 1 2 3 by blast
qed

theorem IsBlockPayeeValid_iff_witness:
  "GetFortuneAddressByHeight example_node example_fortune 2
     = Inr (example_fortune\<lparr>fortuneAddress := ''miner01''\<rparr>) \<and>
   IsBlockPayeeValid example_node example_fortune
     [\<lparr>nValue = 95, scriptPubKey = [1]\<rparr>, \<lparr>nValue = 6, scriptPubKey = [7]\<rparr>] 2 100 = Inr True \<and>
   IsBlockPayeeValid example_node example_fortune
     [\<lparr>nValue = 95, scriptPubKey = [1]\<rparr>, \<lparr>nValue = 4, scriptPubKey = [7]\<rparr>] 2 100 = Inr False \<and>
   IsBlockPayeeValid example_node example_fortune
     [\<lparr>nValue = 0, scriptPubKey = [34]\<rparr>] 0 100 = Inr True"
proof -
  have h: "GetFortuneAddressByHeight example_node example_fortune 2
             = Inr (example_fortune\<lparr>fortuneAddress := ''miner01''\<rparr>)"
    by (simp add: GetFortuneAddressByHeight_def example_node_def example_fortune_def
        ChainActive_Height_def ChainActive_at_def luckyHeightOf_def hashXor_def GetUint64_def)
  have h0: "GetFortuneAddressByHeight example_node example_fortune 0 = Inr example_fortune"
    by (simp add: GetFortuneAddressByHeight_def example_fortune_def)
  note a = IsBlockPayeeValid_iff[OF h,
      of "[\<lparr>nValue = 95, scriptPubKey = [1]\<rparr>, \<lparr>nValue = 6, scriptPubKey = [7]\<rparr>]" 100]
  note b = IsBlockPayeeValid_iff[OF h,
      of "[\<lparr>nValue = 95, scriptPubKey = [1]\<rparr>, \<lparr>nValue = 4, scriptPubKey = [7]\<rparr>]" 100]
  note c = IsBlockPayeeValid_iff[OF h0, of "[\<lparr>nValue = 0, scriptPubKey = [34]\<rparr>]" 100]
  have e: "expectedPayee example_node (example_fortune\<lparr>fortuneAddress := ''miner01''\<rparr>) = [7]"
    "expectedPayee example_node example_fortune = [34]"
    by (simp_all add: expectedPayee_def example_node_def example_fortune_def
        DEFAULT_FORTUNE_ADDRESS_def)
  have p: "getFortunePaymentAmount example_fortune 2 100 = 5"
    by (simp add: getFortunePaymentAmount_def example_fortune_def INT_MAX_def
        signed_divide_int_def)
  have s: "startBlock example_fortune = 0" by (simp add: example_fortune_def)
  show ?thesis
    using h a b c by (simp add: e p s)
qed

section \<open>Properties of the coinbase composer\<close>

lemma addSubPayments_vout:
  "vout tx = out0 # outs \<Longrightarrow>
   addSubPayments tx ps =
     Inr (tx\<lparr>vout := (out0\<lparr>nValue := nValue out0 - sum_list (map nValue ps)\<rparr>) # outs @ ps\<rparr>)"
proof (induction ps arbitrary: tx out0 outs)
  case Nil
  then show ?case by simp
next
  case (Cons p ps)
  have "addSubPayment tx p = Inr (tx\<lparr>vout := (out0\<lparr>nValue := nValue out0 - nValue p\<rparr>) # outs @ [p]\<rparr>)"
    using Cons.prems by (simp add: addSubPayment_def)
  then show ?case
    using Cons.IH[of "tx\<lparr>vout := (out0\<lparr>nValue := nValue out0 - nValue p\<rparr>) # outs @ [p]\<rparr>"
                     "out0\<lparr>nValue := nValue out0 - nValue p\<rparr>" "outs @ [p]"]
    by (simp add: algebra_simps)
qed

lemma addSubPayments_empty_vout:
  "vout tx = [] \<Longrightarrow> addSubPayments tx ps = (if ps = [] then Inr tx else Inl VoutIndexOutOfRange)"
  by (cases ps) (simp_all add: addSubPayment_def)

lemma composeCoinbase_Inr:
  assumes "composeCoinbase bc pindexPrev B scriptPubKeyIn = Inr (cb, sm, sb, fo)"
  defines "height \<equiv> CBlockIndex.nHeight pindexPrev + 1"
  defines "reward \<equiv> nFees B + GetBlockSubsidy bc (nBits pindexPrev) (CBlockIndex.nHeight pindexPrev)"
  defines "v0 \<equiv> (if height = 1 then swapOutputs (node bc) (swapAddresses bc)
                  else [\<lparr>nValue = reward + nSpecialTxFees B, scriptPubKey = scriptPubKeyIn\<rparr>])"
  shows "sm = GetSmartnodeTxOuts bc height reward (nSpecialTxFees B)"
    and "sb = GetSuperblockPayments bc height"
    and "nValue fo = getFortunePaymentAmount (nFortunePayment bc) (height - 1) reward"
    and "\<exists>fp'. GetFortuneAddressByHeight (node bc) (nFortunePayment bc) (height - 1) = Inr fp' \<and>
           IsValidDestination (DecodeDestination (node bc) (fortuneAddress fp')) \<and>
           scriptPubKey fo = expectedPayee (node bc) fp'"
    and "v0 \<noteq> []"
    and "vout cb = ((hd v0)\<lparr>nValue := nValue (hd v0) - sum_list (map nValue (sm @ sb)) - nValue fo\<rparr>)
                     # tl v0 @ sm @ sb @ [fo]"
proof -
  let ?tx0 = "\<lparr>vout = v0\<rparr>"
  from assms(1) obtain tx1 where
    fb: "FillBlockPayments bc ?tx0 height reward (nSpecialTxFees B) = Inr (tx1, sm, sb)"
    and ff: "\<exists>fp'. FillFortunePayment (node bc) (nFortunePayment bc) tx1 height reward = Inr (fp', cb, fo)"
    unfolding composeCoinbase_def Let_def height_def reward_def v0_def
    by (auto split: sum.splits prod.splits if_splits)
  from fb show sm: "sm = GetSmartnodeTxOuts bc height reward (nSpecialTxFees B)"
    and sb: "sb = GetSuperblockPayments bc height"
    by (auto simp: FillBlockPayments_def Let_def split: sum.splits)
  from fb have a: "addSubPayments ?tx0 (sm @ sb) = Inr tx1"
    by (auto simp: FillBlockPayments_def Let_def split: sum.splits)
  from ff obtain fp' where ff': "FillFortunePayment (node bc) (nFortunePayment bc) tx1 height reward = Inr (fp', cb, fo)"
    by blast
  then obtain o1 os1 where
    g: "GetFortuneAddressByHeight (node bc) (nFortunePayment bc) (height - 1) = Inr fp'"
    and valid: "IsValidDestination (DecodeDestination (node bc) (fortuneAddress fp'))"
    and v1: "vout tx1 = o1 # os1"
    and fo: "fo = \<lparr>nValue = getFortunePaymentAmount (nFortunePayment bc) (height - 1) reward,
                   scriptPubKey = expectedPayee (node bc) fp'\<rparr>"
    and cb: "cb = tx1\<lparr>vout := ((o1\<lparr>nValue := nValue o1 - nValue fo\<rparr>) # os1) @ [fo]\<rparr>"
    by (auto simp: FillFortunePayment_def Let_def expectedPayee_def
             split: sum.splits if_splits list.splits)
  show "nValue fo = getFortunePaymentAmount (nFortunePayment bc) (height - 1) reward"
    by (simp add: fo)
  show "\<exists>fp'. GetFortuneAddressByHeight (node bc) (nFortunePayment bc) (height - 1) = Inr fp' \<and>
           IsValidDestination (DecodeDestination (node bc) (fortuneAddress fp')) \<and>
           scriptPubKey fo = expectedPayee (node bc) fp'"
    using g valid fo by auto
  show ne: "v0 \<noteq> []"
  proof
    assume "v0 = []"
    then have "tx1 = ?tx0" using a addSubPayments_empty_vout[of ?tx0 "sm @ sb"]
      by (auto split: if_splits)
    then show False using v1 \<open>v0 = []\<close> by simp
  qed
  then obtain out0 outs where v0: "v0 = out0 # outs" by (cases v0) auto
  have "tx1 = ?tx0\<lparr>vout := (out0\<lparr>nValue := nValue out0 - sum_list (map nValue (sm @ sb))\<rparr>) # outs @ sm @ sb\<rparr>"
    using a addSubPayments_vout[of ?tx0 out0 outs "sm @ sb"] v0 by simp
  then show "vout cb = ((hd v0)\<lparr>nValue := nValue (hd v0) - sum_list (map nValue (sm @ sb)) - nValue fo\<rparr>)
                     # tl v0 @ sm @ sb @ [fo]"
    using v1 cb v0 by auto
qed


lemma list_update_0_nth: "xs \<noteq> [] \<Longrightarrow> xs[0 := x] ! 0 = x"
  by (cases xs) simp_all

lemma commitPackage_nonempty:
  assumes "commitPackage pool B L anc = (B', L')"
  shows "vtx B \<noteq> [] \<Longrightarrow> vtx B' \<noteq> []"
    and "vTxFees B \<noteq> [] \<Longrightarrow> vTxFees B' \<noteq> []"
    and "vSpecialTxFees B \<noteq> [] \<Longrightarrow> vSpecialTxFees B' \<noteq> []"
  using commitPackage_B[OF assms] by (simp_all add: addSortedEntries_fields)

lemma loop_body_nonempty:
  assumes "loop_body ctx B L = Continue B' L'"
    and "vtx B \<noteq> [] \<and> vTxFees B \<noteq> [] \<and> vSpecialTxFees B \<noteq> []"
  shows "vtx B' \<noteq> [] \<and> vTxFees B' \<noteq> [] \<and> vSpecialTxFees B' \<noteq> []"
  using assms(1)
proof (cases rule: loop_body_ContinueE)
  case skip
  then show ?thesis using assms(2) by simp
next
  case (fail package fUsingModified mi')
  then show ?thesis using assms(2) by simp
next
  case (commit package fUsingModified mi')
  then show ?thesis using assms(2) commitPackage_nonempty by blast
qed

lemma addCommitments_nonempty:
  "vtx B \<noteq> [] \<Longrightarrow> vtx (addCommitments qcs B) \<noteq> []"
  "vTxFees B \<noteq> [] \<Longrightarrow> vTxFees (addCommitments qcs B) \<noteq> []"
  "vSpecialTxFees B \<noteq> [] \<Longrightarrow> vSpecialTxFees (addCommitments qcs B) \<noteq> []"
  by (induction qcs arbitrary: B; simp)+

lemma prepareBlock_nonempty:
  "vtx (prepareBlock bc options) \<noteq> [] \<and> vTxFees (prepareBlock bc options) \<noteq> [] \<and>
   vSpecialTxFees (prepareBlock bc options) \<noteq> []"
  by (simp add: prepareBlock_def Let_def addCommitments_nonempty)

lemma addPackageTxs_Returned:
  assumes "addPackageTxs ctx B = Returned r B' L'"
  obtains L where "addPackageTxs_loop ctx B L = Returned r B' L'"
  using assms by (auto simp: addPackageTxs_def)

lemma addPackageTxs_nonempty:
  assumes "addPackageTxs ctx B = Returned r B' L'"
    and "vtx B \<noteq> [] \<and> vTxFees B \<noteq> [] \<and> vSpecialTxFees B \<noteq> []"
  shows "vtx B' \<noteq> [] \<and> vTxFees B' \<noteq> [] \<and> vSpecialTxFees B' \<noteq> []"
proof -
  from assms(1) obtain L where l: "addPackageTxs_loop ctx B L = Returned r B' L'"
    by (rule addPackageTxs_Returned)
  show ?thesis
    using addPackageTxs_loop_invariant[OF l,
        where P = "\<lambda>B L. vtx B \<noteq> [] \<and> vTxFees B \<noteq> [] \<and> vSpecialTxFees B \<noteq> []"]
      assms(2) loop_body_nonempty by blast
qed

lemma CreateNewBlock_Inr:
  assumes "CreateNewBlock bc options scriptPubKeyIn = Inr T"
    and "ChainActive_Tip (node bc) = Some pindexPrev"
  obtains reason B L cb where
    "addPackageTxs (miner bc) (prepareBlock bc options) = Returned reason B L"
    "composeCoinbase bc pindexPrev B scriptPubKeyIn
       = Inr (cb, voutSmartnodePayments T, voutSuperblockPayments T, block_txoutFortune T)"
    "TestBlockValidity bc (block_vtx T)"
    "block_vtx T ! 0 = TxCoinbase cb"
    "template_vTxFees T ! 0 = - nFees B"
    "template_vSpecialTxFees T ! 0 = - nSpecialTxFees B"
    "nLastBlockSize T = nBlockSize B" "nLastBlockSigOps T = nBlockSigOps B"
proof -
  from assms obtain reason B L cb sm sb fo where
    a: "addPackageTxs (miner bc) (prepareBlock bc options) = Returned reason B L"
    and c: "composeCoinbase bc pindexPrev B scriptPubKeyIn = Inr (cb, sm, sb, fo)"
    and v: "TestBlockValidity bc ((vtx B)[0 := TxCoinbase cb])"
    and T: "T = \<lparr>block_vtx = (vtx B)[0 := TxCoinbase cb],
                              block_txoutFortune = fo,
                              block_hashPrevBlock = hashBlock pindexPrev,
                              template_vTxFees = (vTxFees B)[0 := - nFees B],
                              template_vSpecialTxFees =
                                (vSpecialTxFees B)[0 := - nSpecialTxFees B],
                              template_vTxSigOps =
                                (vTxSigOps B)[0 := GetLegacySigOpCount bc cb],
                              voutSmartnodePayments = sm,
                              voutSuperblockPayments = sb,
                              nPrevBits = nBits pindexPrev,
                              nLastBlockTx = nBlockTx B,
                              nLastBlockSize = nBlockSize B,
                              nLastBlockSigOps = nBlockSigOps B\<rparr>"
    by (auto simp: CreateNewBlock_def split: loop_result.splits sum.splits prod.splits if_splits)
  note ne = addPackageTxs_nonempty[OF a prepareBlock_nonempty]
  show ?thesis
    by (rule that[OF a]) (use c v ne in \<open>simp_all add: T list_update_0_nth\<close>)
qed

lemma CreateNewBlock_Inr_coinbase:
  assumes "CreateNewBlock bc options scriptPubKeyIn = Inr T"
  shows "block_vtx T \<noteq> []"
proof -
  from assms obtain pindexPrev where t: "ChainActive_Tip (node bc) = Some pindexPrev"
    by (cases "ChainActive_Tip (node bc)") (simp_all add: CreateNewBlock_def)
  from assms t obtain reason B L cb where
    a: "addPackageTxs (miner bc) (prepareBlock bc options) = Returned reason B L"
    and T: "block_vtx T = (vtx B)[0 := TxCoinbase cb]"
    by (auto simp: CreateNewBlock_def split: loop_result.splits sum.splits prod.splits if_splits)
  note ne = addPackageTxs_nonempty[OF a prepareBlock_nonempty]
  then show ?thesis using T by simp
qed

text \<open>
  Claim C7.  Let the final validity test refuse a block whose coinbase has an output of
  negative value.  For every block template assembled at a height other than 1, the
  coinbase outputs are the remainder output to the miner's script, then the
  service-provider and superblock outputs, then the fortune output; their values add up
  to subsidy + ordinary fees + special fees exactly, the remainder being that total
  minus every sub-payment, and the remainder is not negative.  When the sub-payments
  exceed the total, \<^verbatim>\<open>CreateNewBlock\<close> returns no template but an error: the composer does
  not test the sign of the remainder, the validity test refuses the block and
  \<^verbatim>\<open>CreateNewBlock\<close> throws.
\<close>

theorem coinbase_reward_conservation:
  assumes "ChainActive_Tip (node bc) = Some pindexPrev"
    and "CBlockIndex.nHeight pindexPrev + 1 \<noteq> 1"
    and "\<forall>txs. TestBlockValidity bc txs \<longrightarrow> outputs_nonnegative txs"
  shows "(CreateNewBlock bc options scriptPubKeyIn = Inr T \<longrightarrow>
           (\<exists>reason B L remainder.
              addPackageTxs (miner bc) (prepareBlock bc options) = Returned reason B L \<and>
              TestBlockValidity bc (block_vtx T) \<and>
              block_vtx T ! 0 =
                TxCoinbase \<lparr>vout = remainder # voutSmartnodePayments T @ voutSuperblockPayments T
                                      @ [block_txoutFortune T]\<rparr> \<and>
              scriptPubKey remainder = scriptPubKeyIn \<and>
              nValue remainder =
                GetBlockSubsidy bc (nBits pindexPrev) (CBlockIndex.nHeight pindexPrev)
                  + nFees B + nSpecialTxFees B
                  - sum_list (map nValue (voutSmartnodePayments T))
                  - sum_list (map nValue (voutSuperblockPayments T))
                  - nValue (block_txoutFortune T) \<and>
              0 \<le> nValue remainder \<and>
              sum_list (map nValue (remainder # voutSmartnodePayments T @ voutSuperblockPayments T
                                      @ [block_txoutFortune T]))
                = GetBlockSubsidy bc (nBits pindexPrev) (CBlockIndex.nHeight pindexPrev)
                    + nFees B + nSpecialTxFees B \<and>
              nFees B = - (template_vTxFees T ! 0) \<and>
              nSpecialTxFees B = - (template_vSpecialTxFees T ! 0))) \<and>
         (addPackageTxs (miner bc) (prepareBlock bc options) = Returned reasonS BS LS \<and>
          GetBlockSubsidy bc (nBits pindexPrev) (CBlockIndex.nHeight pindexPrev)
            + nFees BS + nSpecialTxFees BS
            < sum_list (map nValue
                (GetSmartnodeTxOuts bc (CBlockIndex.nHeight pindexPrev + 1)
                   (nFees BS + GetBlockSubsidy bc (nBits pindexPrev) (CBlockIndex.nHeight pindexPrev))
                   (nSpecialTxFees BS)))
              + sum_list (map nValue (GetSuperblockPayments bc (CBlockIndex.nHeight pindexPrev + 1)))
              + getFortunePaymentAmount (nFortunePayment bc) (CBlockIndex.nHeight pindexPrev)
                  (nFees BS + GetBlockSubsidy bc (nBits pindexPrev) (CBlockIndex.nHeight pindexPrev))
            \<longrightarrow> (\<exists>e. CreateNewBlock bc options scriptPubKeyIn = Inl e))"
proof -
  let ?subsidy = "GetBlockSubsidy bc (nBits pindexPrev) (CBlockIndex.nHeight pindexPrev)"
  have main: "\<exists>remainder.
      block_vtx T' ! 0 =
        TxCoinbase \<lparr>vout = remainder # voutSmartnodePayments T' @ voutSuperblockPayments T'
                              @ [block_txoutFortune T']\<rparr> \<and>
      scriptPubKey remainder = scriptPubKeyIn \<and>
      nValue remainder = ?subsidy + nFees B + nSpecialTxFees B
          - sum_list (map nValue (voutSmartnodePayments T'))
          - sum_list (map nValue (voutSuperblockPayments T'))
          - nValue (block_txoutFortune T') \<and>
      0 \<le> nValue remainder"
    if c: "composeCoinbase bc pindexPrev B scriptPubKeyIn
             = Inr (cb, voutSmartnodePayments T', voutSuperblockPayments T', block_txoutFortune T')"
      and v: "TestBlockValidity bc (block_vtx T')"
      and cb: "block_vtx T' ! 0 = TxCoinbase cb"
      and ne: "block_vtx T' \<noteq> []"
    for T' :: CBlockTemplate and B cb
  proof -
    let ?total = "?subsidy + nFees B + nSpecialTxFees B"
    let ?sm = "voutSmartnodePayments T'" and ?sb = "voutSuperblockPayments T'"
    let ?fo = "block_txoutFortune T'"
    let ?rem = "\<lparr>nValue = ?total - sum_list (map nValue ?sm) - sum_list (map nValue ?sb) - nValue ?fo,
                 scriptPubKey = scriptPubKeyIn\<rparr>"
    have "vout cb = ?rem # ?sm @ ?sb @ [?fo]"
      using composeCoinbase_Inr(6)[OF c] assms(2) by (simp add: algebra_simps)
    then have cbe: "cb = \<lparr>vout = ?rem # ?sm @ ?sb @ [?fo]\<rparr>" by (cases cb) simp
    have "TxCoinbase cb \<in> set (block_vtx T')"
      using cb ne nth_mem[of 0 "block_vtx T'"] by auto
    moreover have "outputs_nonnegative (block_vtx T')" using v assms(3) by blast
    ultimately have "list_all (\<lambda>out. 0 \<le> nValue out) (vout cb)"
      by (auto simp: outputs_nonnegative_def list_all_iff)
    then have "list_all (\<lambda>out. 0 \<le> nValue out) (?rem # ?sm @ ?sb @ [?fo])"
      using \<open>vout cb = ?rem # ?sm @ ?sb @ [?fo]\<close> by simp
    then have "0 \<le> nValue ?rem" by (simp only: list.pred_inject)
    then show ?thesis
      using cb cbe by (intro exI[of _ ?rem]) simp
  qed
  have 1: "CreateNewBlock bc options scriptPubKeyIn = Inr T \<longrightarrow>
           (\<exists>reason B L remainder.
              addPackageTxs (miner bc) (prepareBlock bc options) = Returned reason B L \<and>
              TestBlockValidity bc (block_vtx T) \<and>
              block_vtx T ! 0 =
                TxCoinbase \<lparr>vout = remainder # voutSmartnodePayments T @ voutSuperblockPayments T
                                      @ [block_txoutFortune T]\<rparr> \<and>
              scriptPubKey remainder = scriptPubKeyIn \<and>
              nValue remainder = ?subsidy + nFees B + nSpecialTxFees B
                  - sum_list (map nValue (voutSmartnodePayments T))
                  - sum_list (map nValue (voutSuperblockPayments T))
                  - nValue (block_txoutFortune T) \<and>
              0 \<le> nValue remainder \<and>
              sum_list (map nValue (remainder # voutSmartnodePayments T @ voutSuperblockPayments T
                                      @ [block_txoutFortune T]))
                = ?subsidy + nFees B + nSpecialTxFees B \<and>
              nFees B = - (template_vTxFees T ! 0) \<and>
              nSpecialTxFees B = - (template_vSpecialTxFees T ! 0))"
  proof
    assume h: "CreateNewBlock bc options scriptPubKeyIn = Inr T"
    from h assms(1) obtain reason B L cb where
      a: "addPackageTxs (miner bc) (prepareBlock bc options) = Returned reason B L"
      and c: "composeCoinbase bc pindexPrev B scriptPubKeyIn
         = Inr (cb, voutSmartnodePayments T, voutSuperblockPayments T, block_txoutFortune T)"
      and v: "TestBlockValidity bc (block_vtx T)"
      and cb: "block_vtx T ! 0 = TxCoinbase cb"
      and f: "template_vTxFees T ! 0 = - nFees B" "template_vSpecialTxFees T ! 0 = - nSpecialTxFees B"
      by (rule CreateNewBlock_Inr)
    from main[OF c v cb CreateNewBlock_Inr_coinbase[OF h]] obtain remainder where
      r: "block_vtx T ! 0 =
        TxCoinbase \<lparr>vout = remainder # voutSmartnodePayments T @ voutSuperblockPayments T
                              @ [block_txoutFortune T]\<rparr>"
      "scriptPubKey remainder = scriptPubKeyIn"
      "nValue remainder = ?subsidy + nFees B + nSpecialTxFees B
          - sum_list (map nValue (voutSmartnodePayments T))
          - sum_list (map nValue (voutSuperblockPayments T))
          - nValue (block_txoutFortune T)"
      "0 \<le> nValue remainder" by blast
    show "\<exists>reason B L remainder.
              addPackageTxs (miner bc) (prepareBlock bc options) = Returned reason B L \<and>
              TestBlockValidity bc (block_vtx T) \<and>
              block_vtx T ! 0 =
                TxCoinbase \<lparr>vout = remainder # voutSmartnodePayments T @ voutSuperblockPayments T
                                      @ [block_txoutFortune T]\<rparr> \<and>
              scriptPubKey remainder = scriptPubKeyIn \<and>
              nValue remainder = ?subsidy + nFees B + nSpecialTxFees B
                  - sum_list (map nValue (voutSmartnodePayments T))
                  - sum_list (map nValue (voutSuperblockPayments T))
                  - nValue (block_txoutFortune T) \<and>
              0 \<le> nValue remainder \<and>
              sum_list (map nValue (remainder # voutSmartnodePayments T @ voutSuperblockPayments T
                                      @ [block_txoutFortune T]))
                = ?subsidy + nFees B + nSpecialTxFees B \<and>
              nFees B = - (template_vTxFees T ! 0) \<and>
              nSpecialTxFees B = - (template_vSpecialTxFees T ! 0)"
      using a v r f
      by (intro exI[of _ reason] exI[of _ B] exI[of _ L] exI[of _ remainder]) simp
  qed
  have 2: "\<exists>e. CreateNewBlock bc options scriptPubKeyIn = Inl e"
    if run: "addPackageTxs (miner bc) (prepareBlock bc options) = Returned reasonS BS LS"
      and over: "?subsidy + nFees BS + nSpecialTxFees BS
            < sum_list (map nValue
                (GetSmartnodeTxOuts bc (CBlockIndex.nHeight pindexPrev + 1)
                   (nFees BS + ?subsidy) (nSpecialTxFees BS)))
              + sum_list (map nValue (GetSuperblockPayments bc (CBlockIndex.nHeight pindexPrev + 1)))
              + getFortunePaymentAmount (nFortunePayment bc) (CBlockIndex.nHeight pindexPrev)
                  (nFees BS + ?subsidy)"
  proof (cases "CreateNewBlock bc options scriptPubKeyIn")
    case (Inl e)
    then show ?thesis by blast
  next
    case (Inr T')
    from Inr assms(1) obtain reason B L cb where
      a: "addPackageTxs (miner bc) (prepareBlock bc options) = Returned reason B L"
      and c: "composeCoinbase bc pindexPrev B scriptPubKeyIn
         = Inr (cb, voutSmartnodePayments T', voutSuperblockPayments T', block_txoutFortune T')"
      and v: "TestBlockValidity bc (block_vtx T')"
      and cb: "block_vtx T' ! 0 = TxCoinbase cb"
      by (rule CreateNewBlock_Inr)
    have B: "B = BS" using a run by simp
    from main[OF c v cb CreateNewBlock_Inr_coinbase[OF Inr]] obtain remainder :: CTxOut where
      r: "nValue remainder = ?subsidy + nFees B + nSpecialTxFees B
          - sum_list (map nValue (voutSmartnodePayments T'))
          - sum_list (map nValue (voutSuperblockPayments T'))
          - nValue (block_txoutFortune T')"
      "0 \<le> nValue remainder" by blast
    note cc = composeCoinbase_Inr(1,2,3)[OF c]
    have False using r over unfolding cc B by simp
    then show ?thesis ..
  qed
  show ?thesis using 1 2 by blast
qed

theorem coinbase_reward_conservation_witness:
  "CreateNewBlock example_bc_checked example_options [9] =
     Inr \<lparr>block_vtx = [TxCoinbase \<lparr>vout = [\<lparr>nValue = 3750, scriptPubKey = [9]\<rparr>,
                                              \<lparr>nValue = 1000, scriptPubKey = [8]\<rparr>,
                                              \<lparr>nValue = 250, scriptPubKey = [7]\<rparr>]\<rparr>,
                       TxQuorumCommitment 300],
          block_txoutFortune = \<lparr>nValue = 250, scriptPubKey = [7]\<rparr>,
          block_hashPrevBlock = 2 ^ 65 + 5,
          template_vTxFees = [0, 0], template_vSpecialTxFees = [0, 0],
          template_vTxSigOps = [1, 0],
          voutSmartnodePayments = [\<lparr>nValue = 1000, scriptPubKey = [8]\<rparr>],
          voutSuperblockPayments = [], nPrevBits = 0,
          nLastBlockTx = 1, nLastBlockSize = 1300, nLastBlockSigOps = 100\<rparr> \<and>
   ChainActive_Tip (node example_bc_checked)
     = Some \<lparr>nHeight = 2, hashBlock = 2 ^ 65 + 5, nBits = 0\<rparr> \<and>
   (3750 :: int) + 1000 + 250 = 5000 + 0 + 0 \<and>
   CreateNewBlock example_bc_overpaid example_options [9]
     = Inl (RuntimeError ''TestBlockValidity failed'') \<and>
   (5000 :: int) + 0 + 0 < 4900 + 0 + 250"
proof -
  let ?tip = "\<lparr>nHeight = 2, hashBlock = 2 ^ 65 + 5, nBits = 0\<rparr> :: CBlockIndex"
  let ?Bs = "prepareBlock example_bc_overpaid example_options"
  let ?Ls = "initialLoop (miner example_bc_overpaid) ?Bs"
  have h: "CreateNewBlock example_bc_checked example_options [9] =
     Inr \<lparr>block_vtx = [TxCoinbase \<lparr>vout = [\<lparr>nValue = 3750, scriptPubKey = [9]\<rparr>,
                                              \<lparr>nValue = 1000, scriptPubKey = [8]\<rparr>,
                                              \<lparr>nValue = 250, scriptPubKey = [7]\<rparr>]\<rparr>,
                       TxQuorumCommitment 300],
          block_txoutFortune = \<lparr>nValue = 250, scriptPubKey = [7]\<rparr>,
          block_hashPrevBlock = 2 ^ 65 + 5,
          template_vTxFees = [0, 0], template_vSpecialTxFees = [0, 0],
          template_vTxSigOps = [1, 0],
          voutSmartnodePayments = [\<lparr>nValue = 1000, scriptPubKey = [8]\<rparr>],
          voutSuperblockPayments = [], nPrevBits = 0,
          nLastBlockTx = 1, nLastBlockSize = 1300, nLastBlockSigOps = 100\<rparr>"
    by (simp add: outputs_nonnegative_def example_defs assembler_defs)
  have t: "ChainActive_Tip (node example_bc_checked) = Some ?tip"
    "ChainActive_Tip (node example_bc_overpaid) = Some ?tip"
    by (simp_all add: example_defs ChainActive_Tip_def)
  have n: "CBlockIndex.nHeight ?tip + 1 \<noteq> 1" by simp
  have v: "\<forall>txs. TestBlockValidity example_bc_checked txs \<longrightarrow> outputs_nonnegative txs"
    "\<forall>txs. TestBlockValidity example_bc_overpaid txs \<longrightarrow> outputs_nonnegative txs"
    by (simp_all add: example_bc_checked_def example_bc_overpaid_def)
  have run: "addPackageTxs (miner example_bc_overpaid) ?Bs
               = Returned LoopConditionFalse ?Bs ?Ls"
    by (simp add: example_defs assembler_defs)
  have over: "GetBlockSubsidy example_bc_overpaid (nBits ?tip) (CBlockIndex.nHeight ?tip)
            + nFees ?Bs + nSpecialTxFees ?Bs
            < sum_list (map nValue
                (GetSmartnodeTxOuts example_bc_overpaid (CBlockIndex.nHeight ?tip + 1)
                   (nFees ?Bs + GetBlockSubsidy example_bc_overpaid (nBits ?tip)
                      (CBlockIndex.nHeight ?tip))
                   (nSpecialTxFees ?Bs)))
              + sum_list (map nValue
                  (GetSuperblockPayments example_bc_overpaid (CBlockIndex.nHeight ?tip + 1)))
              + getFortunePaymentAmount (nFortunePayment example_bc_overpaid)
                  (CBlockIndex.nHeight ?tip)
                  (nFees ?Bs + GetBlockSubsidy example_bc_overpaid (nBits ?tip)
                     (CBlockIndex.nHeight ?tip))"
    by (simp add: example_defs assembler_defs)
  have l: "CreateNewBlock example_bc_overpaid example_options [9]
             = Inl (RuntimeError ''TestBlockValidity failed'')"
    by (simp add: outputs_nonnegative_def example_defs assembler_defs)
  note a = coinbase_reward_conservation[OF t(1) n v(1),
      where options = example_options and scriptPubKeyIn = "[9]",
      THEN conjunct1, rule_format, OF h]
  note b = coinbase_reward_conservation[OF t(2) n v(2),
      where options = example_options and scriptPubKeyIn = "[9]"
        and reasonS = LoopConditionFalse and BS = ?Bs and LS = ?Ls,
      THEN conjunct2, rule_format, OF conjI[OF run over]]
  show ?thesis using h t(1) l a b by simp
qed

text \<open>
  Claim C8, as the code has it.  When the block under construction is the first one
  (height 1), the coinbase outputs begin with one output per entry of the table
  \<^verbatim>\<open>swapAddresses\<close>, in the order of the table, each to the entry's address and with the
  entry's amount; only the first of them is reduced by what the payment layers
  subtract.  No output to the miner's script is created and no subsidy or fee amount is
  added.  The payment layers still run: behind the table outputs come the outputs of the
  service-provider and superblock schedules and then one fortune output to the default
  fortune address.  That fortune output has value 0 when the start block of the fortune
  schedule is not negative; then, with no scheduled payments, the coinbase is the table
  outputs followed by one zero-value output.
\<close>

theorem first_block_coinbase:
  assumes "CreateNewBlock bc options scriptPubKeyIn = Inr T"
    and "ChainActive_Tip (node bc) = Some pindexPrev"
    and "CBlockIndex.nHeight pindexPrev + 1 = 1"
  shows "\<exists>out0 outs.
           swapOutputs (node bc) (swapAddresses bc) = out0 # outs \<and>
           block_vtx T ! 0 =
             TxCoinbase \<lparr>vout = (out0\<lparr>nValue := nValue out0
                                       - sum_list (map nValue (voutSmartnodePayments T))
                                       - sum_list (map nValue (voutSuperblockPayments T))
                                       - nValue (block_txoutFortune T)\<rparr>)
                                 # outs @ voutSmartnodePayments T @ voutSuperblockPayments T
                                 @ [block_txoutFortune T]\<rparr> \<and>
           scriptPubKey (block_txoutFortune T) =
             GetScriptForDestination (node bc)
               (DecodeDestination (node bc) DEFAULT_FORTUNE_ADDRESS) \<and>
           (0 \<le> startBlock (nFortunePayment bc) \<longrightarrow> nValue (block_txoutFortune T) = 0) \<and>
           (0 \<le> startBlock (nFortunePayment bc) \<and> voutSmartnodePayments T = [] \<and>
            voutSuperblockPayments T = [] \<longrightarrow>
              block_vtx T ! 0 =
                TxCoinbase \<lparr>vout = swapOutputs (node bc) (swapAddresses bc)
                  @ [\<lparr>nValue = 0,
                      scriptPubKey = GetScriptForDestination (node bc)
                        (DecodeDestination (node bc) DEFAULT_FORTUNE_ADDRESS)\<rparr>]\<rparr>)"
proof -
  from assms(1,2) obtain reason B L cb where
    c: "composeCoinbase bc pindexPrev B scriptPubKeyIn
       = Inr (cb, voutSmartnodePayments T, voutSuperblockPayments T, block_txoutFortune T)"
    and cb: "block_vtx T ! 0 = TxCoinbase cb"
    by (rule CreateNewBlock_Inr)
  let ?sm = "voutSmartnodePayments T" and ?sb = "voutSuperblockPayments T"
  let ?fo = "block_txoutFortune T"
  let ?v0 = "swapOutputs (node bc) (swapAddresses bc)"
  note cc = composeCoinbase_Inr[OF c]
  have ne: "?v0 \<noteq> []" using cc(5) assms(3) by simp
  then obtain out0 outs where v0: "?v0 = out0 # outs" by (cases ?v0) auto
  have vo: "vout cb = (out0\<lparr>nValue := nValue out0 - sum_list (map nValue ?sm)
                           - sum_list (map nValue ?sb) - nValue ?fo\<rparr>) # outs @ ?sm @ ?sb @ [?fo]"
    using cc(6) assms(3) v0 by (simp add: algebra_simps)
  have payee: "scriptPubKey ?fo = GetScriptForDestination (node bc)
               (DecodeDestination (node bc) DEFAULT_FORTUNE_ADDRESS)"
    using cc(4) assms(3)
    by (auto simp: GetFortuneAddressByHeight_def expectedPayee_def)
  have zero: "0 \<le> startBlock (nFortunePayment bc) \<Longrightarrow> nValue ?fo = 0"
    using cc(3) assms(3) by (simp add: getFortunePaymentAmount_def)
  have fo: "0 \<le> startBlock (nFortunePayment bc) \<Longrightarrow> ?fo = \<lparr>nValue = 0,
                      scriptPubKey = GetScriptForDestination (node bc)
                        (DecodeDestination (node bc) DEFAULT_FORTUNE_ADDRESS)\<rparr>"
    using payee zero by (cases ?fo) simp
  have cbeq: "cb = \<lparr>vout = vout cb\<rparr>" by (cases cb) simp
  have plain: "0 \<le> startBlock (nFortunePayment bc) \<and> ?sm = [] \<and> ?sb = [] \<longrightarrow>
              block_vtx T ! 0 = TxCoinbase \<lparr>vout = ?v0 @ [\<lparr>nValue = 0,
                      scriptPubKey = GetScriptForDestination (node bc)
                        (DecodeDestination (node bc) DEFAULT_FORTUNE_ADDRESS)\<rparr>]\<rparr>"
  proof (intro impI, elim conjE)
    assume s: "0 \<le> startBlock (nFortunePayment bc)" and e: "?sm = []" "?sb = []"
    have "vout cb = ?v0 @ [?fo]" using vo zero[OF s] e v0 by simp
    then show "block_vtx T ! 0 = TxCoinbase \<lparr>vout = ?v0 @ [\<lparr>nValue = 0,
                      scriptPubKey = GetScriptForDestination (node bc)
                        (DecodeDestination (node bc) DEFAULT_FORTUNE_ADDRESS)\<rparr>]\<rparr>"
      using cb cbeq fo[OF s] by simp
  qed
  show ?thesis
    using v0 vo cb cbeq payee zero plain
    by (intro exI[of _ out0] exI[of _ outs]) (simp add: algebra_simps)
qed


theorem first_block_coinbase_witness:
  "CreateNewBlock example_bc_first example_options [9] =
     Inr \<lparr>block_vtx = [TxCoinbase \<lparr>vout = [\<lparr>nValue = 5, scriptPubKey = [2]\<rparr>,
                                              \<lparr>nValue = 7, scriptPubKey = [3]\<rparr>,
                                              \<lparr>nValue = 0, scriptPubKey = [34]\<rparr>]\<rparr>,
                       TxQuorumCommitment 300],
          block_txoutFortune = \<lparr>nValue = 0, scriptPubKey = [34]\<rparr>,
          block_hashPrevBlock = 7,
          template_vTxFees = [0, 0], template_vSpecialTxFees = [0, 0],
          template_vTxSigOps = [1, 0],
          voutSmartnodePayments = [], voutSuperblockPayments = [], nPrevBits = 0,
          nLastBlockTx = 1, nLastBlockSize = 1300, nLastBlockSigOps = 100\<rparr> \<and>
   ChainActive_Tip (node example_bc_first) = Some \<lparr>nHeight = 0, hashBlock = 7, nBits = 0\<rparr> \<and>
   swapOutputs (node example_bc_first) (swapAddresses example_bc_first)
     = [\<lparr>nValue = 5, scriptPubKey = [2]\<rparr>, \<lparr>nValue = 7, scriptPubKey = [3]\<rparr>]"
proof -
  have h: "CreateNewBlock example_bc_first example_options [9] =
     Inr \<lparr>block_vtx = [TxCoinbase \<lparr>vout = [\<lparr>nValue = 5, scriptPubKey = [2]\<rparr>,
                                              \<lparr>nValue = 7, scriptPubKey = [3]\<rparr>,
                                              \<lparr>nValue = 0, scriptPubKey = [34]\<rparr>]\<rparr>,
                       TxQuorumCommitment 300],
          block_txoutFortune = \<lparr>nValue = 0, scriptPubKey = [34]\<rparr>,
          block_hashPrevBlock = 7,
          template_vTxFees = [0, 0], template_vSpecialTxFees = [0, 0],
          template_vTxSigOps = [1, 0],
          voutSmartnodePayments = [], voutSuperblockPayments = [], nPrevBits = 0,
          nLastBlockTx = 1, nLastBlockSize = 1300, nLastBlockSigOps = 100\<rparr>"
    by (simp add: example_defs assembler_defs DEFAULT_FORTUNE_ADDRESS_def)
  have t: "ChainActive_Tip (node example_bc_first)
             = Some \<lparr>nHeight = 0, hashBlock = 7, nBits = 0\<rparr>"
    by (simp add: example_defs ChainActive_Tip_def)
  have n: "CBlockIndex.nHeight \<lparr>nHeight = 0, hashBlock = 7, nBits = 0\<rparr> + 1 = 1"
    by simp
  have w: "swapOutputs (node example_bc_first) (swapAddresses example_bc_first)
     = [\<lparr>nValue = 5, scriptPubKey = [2]\<rparr>, \<lparr>nValue = 7, scriptPubKey = [3]\<rparr>]"
    by (simp add: example_defs swapOutputs_def)
  show ?thesis
    using h t w first_block_coinbase[OF h t n] by simp
qed

text \<open>
  With a table of two entries the coinbase of the first block has three outputs: the
  fortune output is appended.
\<close>

theorem first_block_extra_output_counterexample:
  "composeCoinbase example_bc_first \<lparr>nHeight = 0, hashBlock = 7, nBits = 0\<rparr>
      (prepareBlock example_bc_first example_options) [9]
   = Inr (\<lparr>vout = [\<lparr>nValue = 5, scriptPubKey = [2]\<rparr>, \<lparr>nValue = 7, scriptPubKey = [3]\<rparr>,
                   \<lparr>nValue = 0, scriptPubKey = [34]\<rparr>]\<rparr>,
          [], [], \<lparr>nValue = 0, scriptPubKey = [34]\<rparr>) \<and>
   swapAddresses example_bc_first = [(''Fa'', 5), (''Fbb'', 7)]"
  by (simp add: example_defs assembler_defs DEFAULT_FORTUNE_ADDRESS_def)

section \<open>Properties of the modified-package tracker\<close>

lemma mod_find_None_iff: "mod_find m t = None \<longleftrightarrow> t \<notin> iter ` set m"
  by (auto simp: mod_find_def find_None_iff)

lemma mod_find_Some_iff:
  assumes "distinct (map iter m)"
  shows "mod_find m t = Some e \<longleftrightarrow> e \<in> set m \<and> iter e = t"
  using assms unfolding mod_find_def
  by (induction m) (auto simp: image_iff)

lemma mod_count_iff: "mod_count m t \<longleftrightarrow> mod_find m t \<noteq> None"
  by (simp add: mod_count_def mod_find_None_iff)

lemma mod_place_distinct:
  "distinct (map iter (mod_place e m)) \<longleftrightarrow> iter e \<notin> iter ` set m \<and> distinct (map iter m)"
  by (induction m) (auto simp: mod_place_set)

lemma mod_insert_distinct:
  "distinct (map iter m) \<Longrightarrow> distinct (map iter (mod_insert m e))"
  by (simp add: mod_insert_def mod_place_distinct mod_count_def)

lemma mod_erase_distinct:
  "distinct (map iter m) \<Longrightarrow> distinct (map iter (mod_erase m t))"
  by (simp add: mod_erase_def distinct_map_filter)

lemma mod_split:
  assumes "mod_find m t = Some e" "distinct (map iter m)"
  obtains front rear where "m = front @ e # rear"
    "takeWhile (\<lambda>x. iter x \<noteq> t) m = front" "dropWhile (\<lambda>x. iter x \<noteq> t) m = e # rear"
    "t \<notin> iter ` set front" "t \<notin> iter ` set rear" "iter e = t"
proof -
  let ?P = "\<lambda>x. iter x \<noteq> t"
  from assms have e: "e \<in> set m" "iter e = t" by (simp_all add: mod_find_Some_iff)
  then have "dropWhile ?P m \<noteq> []" by (auto simp: dropWhile_eq_Nil_conv)
  then obtain x rear where d: "dropWhile ?P m = x # rear" by (cases "dropWhile ?P m") auto
  have "takeWhile ?P m @ dropWhile ?P m = m" by (rule takeWhile_dropWhile_id)
  then have m: "m = takeWhile ?P m @ x # rear" using d by simp
  have "\<not> ?P (hd (dropWhile ?P m))" using \<open>dropWhile ?P m \<noteq> []\<close> by (rule hd_dropWhile)
  then have x: "iter x = t" using d by simp
  have "x \<in> set (takeWhile ?P m @ x # rear)" by simp
  then have "x \<in> set m" using m by simp
  then have "mod_find m t = Some x" using x assms(2) by (simp add: mod_find_Some_iff)
  then have xe: "x = e" using assms(1) by simp
  have f: "t \<notin> iter ` set (takeWhile ?P m)" by (auto dest: set_takeWhileD)
  have "distinct (map iter (takeWhile ?P m @ x # rear))" using assms(2) m by simp
  then have r: "t \<notin> iter ` set rear" using x by auto
  show ?thesis
  proof (rule that[of "takeWhile ?P m" rear])
    show "m = takeWhile ?P m @ e # rear" using m xe by simp
    show "dropWhile ?P m = e # rear" using d xe by simp
  qed (use f r e in simp_all)
qed

lemma mod_modify_set:
  assumes "mod_find m t = Some e" "distinct (map iter m)"
  shows "set (mod_modify m t f) = insert (f e) (set m - {e})"
proof -
  from assms obtain front rear where s: "m = front @ e # rear"
    "takeWhile (\<lambda>x. iter x \<noteq> t) m = front" "dropWhile (\<lambda>x. iter x \<noteq> t) m = e # rear"
    "t \<notin> iter ` set front" "t \<notin> iter ` set rear" "iter e = t"
    by (rule mod_split)
  have "e \<notin> set front" "e \<notin> set rear" using s(4,5,6) by auto
  then have "set m - {e} = set front \<union> set rear" using s(1) by auto
  then show ?thesis
    unfolding mod_modify_def Let_def s(2,3) by (auto simp: mod_place_set)
qed

lemma mod_modify_distinct:
  assumes "distinct (map iter m)" "\<And>x. iter (f x) = iter x"
  shows "distinct (map iter (mod_modify m t f))"
proof (cases "mod_find m t")
  case None
  then have dn: "dropWhile (\<lambda>x. iter x \<noteq> t) m = []"
    by (auto simp: mod_find_None_iff dropWhile_eq_Nil_conv)
  show ?thesis unfolding mod_modify_def Let_def dn using assms(1) by simp
next
  case (Some e)
  from Some assms(1) obtain front rear where s: "m = front @ e # rear"
    "takeWhile (\<lambda>x. iter x \<noteq> t) m = front" "dropWhile (\<lambda>x. iter x \<noteq> t) m = e # rear"
    "t \<notin> iter ` set front" "t \<notin> iter ` set rear" "iter e = t"
    by (rule mod_split)
  have d: "distinct (map iter (front @ e # rear))" using assms(1) s(1) by simp
  have 1: "distinct (map iter (front @ f e # rear))" using d assms(2) by simp
  have 2: "distinct (map iter (mod_place (f e) (front @ rear)))"
    using d assms(2)[of e] s(4,5,6) by (auto simp: mod_place_distinct)
  show ?thesis unfolding mod_modify_def Let_def s(2,3) using 1 2 by simp
qed

lemma mod_find_mod_modify:
  assumes "mod_find m t = Some e" "distinct (map iter m)" "\<And>x. iter (f x) = iter x"
  shows "mod_find (mod_modify m t f) t' = (if t' = t then Some (f e) else mod_find m t')"
proof -
  have d: "distinct (map iter (mod_modify m t f))" using assms(2,3) by (rule mod_modify_distinct)
  have e: "e \<in> set m" "iter e = t" using assms(1,2) by (simp_all add: mod_find_Some_iff)
  have s: "set (mod_modify m t f) = insert (f e) (set m - {e})" using assms(1,2) by (rule mod_modify_set)
  show ?thesis
  proof (cases "t' = t")
    case True
    then show ?thesis using d s assms(3)[of e] e by (simp add: mod_find_Some_iff)
  next
    case False
    show ?thesis
    proof (cases "mod_find m t'")
      case None
      then have "t' \<notin> iter ` set (mod_modify m t f)"
        using s False assms(3)[of e] e by (auto simp: mod_find_None_iff)
      then have "mod_find (mod_modify m t f) t' = None" by (simp add: mod_find_None_iff)
      then show ?thesis using None False by simp
    next
      case (Some x)
      then have "x \<in> set m" "iter x = t'" using assms(2) by (simp_all add: mod_find_Some_iff)
      then have "x \<in> set (mod_modify m t f)" using s False e by auto
      then show ?thesis using Some False d \<open>iter x = t'\<close> by (simp add: mod_find_Some_iff)
    qed
  qed
qed

lemma mod_find_mod_insert:
  assumes "mod_find m (iter e) = None" "distinct (map iter m)"
  shows "mod_find (mod_insert m e) t' = (if t' = iter e then Some e else mod_find m t')"
proof -
  have n: "iter e \<notin> iter ` set m" using assms(1) by (simp add: mod_find_None_iff)
  then have i: "mod_insert m e = mod_place e m" by (simp add: mod_insert_def mod_count_def)
  have d: "distinct (map iter (mod_place e m))" using n assms(2) by (simp add: mod_place_distinct)
  show ?thesis
  proof (cases "mod_find m t'")
    case None
    show ?thesis
    proof (cases "t' = iter e")
      case True
      then show ?thesis using d by (simp add: i mod_find_Some_iff mod_place_set)
    next
      case False
      then have "t' \<notin> iter ` set (mod_place e m)"
        using None by (auto simp: mod_find_None_iff mod_place_set)
      then have "mod_find (mod_place e m) t' = None" by (simp add: mod_find_None_iff)
      then show ?thesis using None False by (simp add: i)
    qed
  next
    case (Some x)
    then have "x \<in> set m" "iter x = t'" using assms(2) by (simp_all add: mod_find_Some_iff)
    then show ?thesis using Some d n
      by (auto simp: i mod_find_Some_iff mod_place_set)
  qed
qed

lemma adjustDescendant_find:
  assumes "distinct (map iter m)"
  shows "mod_find (adjustDescendant pool it desc m) t' =
           (if t' = desc then Some (update_for_parent_inclusion pool it (trackedFigures pool m desc))
            else mod_find m t')"
    and "distinct (map iter (adjustDescendant pool it desc m))"
proof -
  let ?new = "update_for_parent_inclusion pool it (CTxMemPoolModifiedEntry_of pool desc)"
  have new: "(let modEntry = CTxMemPoolModifiedEntry_of pool desc;
               modEntry = modEntry\<lparr>nSizeWithAncestors :=
                             nSizeWithAncestors modEntry - GetTxSize (entry pool it)\<rparr>;
               modEntry = modEntry\<lparr>nModFeesWithAncestors :=
                             nModFeesWithAncestors modEntry - GetModifiedFee (entry pool it)\<rparr>;
               modEntry = modEntry\<lparr>nSigOpCountWithAncestors :=
                             nSigOpCountWithAncestors modEntry - GetSigOpCount (entry pool it)\<rparr>
           in mod_insert m modEntry) = mod_insert m ?new"
    by (simp add: Let_def update_for_parent_inclusion_def CTxMemPoolModifiedEntry_of_def)
  have it: "iter ?new = desc" by (simp add: CTxMemPoolModifiedEntry_of_def)
  show "mod_find (adjustDescendant pool it desc m) t' =
           (if t' = desc then Some (update_for_parent_inclusion pool it (trackedFigures pool m desc))
            else mod_find m t')"
  proof (cases "mod_find m desc")
    case None
    then show ?thesis
      using mod_find_mod_insert[of m ?new, OF _ assms] it new
      by (simp add: adjustDescendant_def trackedFigures_def)
  next
    case (Some e)
    then show ?thesis
      using mod_find_mod_modify[OF Some assms, of "update_for_parent_inclusion pool it"]
      by (simp add: adjustDescendant_def trackedFigures_def)
  qed
  show "distinct (map iter (adjustDescendant pool it desc m))"
  proof (cases "mod_find m desc")
    case None
    then show ?thesis using new mod_insert_distinct[OF assms] by (simp add: adjustDescendant_def)
  next
    case (Some e)
    then show ?thesis using mod_modify_distinct[OF assms] by (simp add: adjustDescendant_def)
  qed
qed


lemma trackedFigures_iter [simp]:
  assumes "distinct (map iter m)"
  shows "iter (trackedFigures pool m d) = d"
proof (cases "mod_find m d")
  case None
  then show ?thesis by (simp add: trackedFigures_def CTxMemPoolModifiedEntry_of_def)
next
  case (Some e)
  then have "iter e = d" using assms by (simp add: mod_find_Some_iff)
  then show ?thesis by (simp add: trackedFigures_def Some)
qed

lemma trackedFigures_adjust:
  assumes "distinct (map iter m)"
  shows "trackedFigures pool (adjustDescendant pool it desc m) d =
           (if d = desc then update_for_parent_inclusion pool it (trackedFigures pool m desc)
            else trackedFigures pool m d)"
  using adjustDescendant_find(1)[OF assms, of pool it desc d]
  by (simp add: trackedFigures_def)

lemma updateDescendants_spec:
  assumes "distinct (map iter m)" "distinct ds"
  shows "fst (updateDescendants pool aa it ds (n, m))
           = n + int (length (filter (\<lambda>d. d \<notin> set aa) ds))
       \<and> distinct (map iter (snd (updateDescendants pool aa it ds (n, m))))
       \<and> (\<forall>d. mod_find (snd (updateDescendants pool aa it ds (n, m))) d =
             (if d \<in> set ds \<and> d \<notin> set aa
              then Some (update_for_parent_inclusion pool it (trackedFigures pool m d))
              else mod_find m d))"
  using assms
proof (induction ds arbitrary: n m)
  case Nil
  then show ?case by simp
next
  case (Cons d0 ds)
  show ?case
  proof (cases "d0 \<in> set aa")
    case True
    then show ?thesis using Cons.IH[of m n] Cons.prems by auto
  next
    case False
    let ?m1 = "adjustDescendant pool it d0 m"
    have d1: "distinct (map iter ?m1)" using Cons.prems(1) by (rule adjustDescendant_find(2))
    note IH = Cons.IH[OF d1, of "n + 1"]
    have tf: "\<And>d. d \<in> set ds \<Longrightarrow> trackedFigures pool ?m1 d = trackedFigures pool m d"
      using Cons.prems by (auto simp: trackedFigures_adjust)
    have mf: "\<And>d. mod_find ?m1 d =
           (if d = d0 then Some (update_for_parent_inclusion pool it (trackedFigures pool m d0))
            else mod_find m d)"
      using adjustDescendant_find(1)[OF Cons.prems(1)] by simp
    show ?thesis
      using IH Cons.prems(2) False tf mf by auto
  qed
qed

lemma committedParents_Cons:
  "committedParents pool (it # its) d =
     (if d \<in> set (CalculateDescendants pool it) then it # committedParents pool its d
      else committedParents pool its d)"
  by (simp add: committedParents_def)

lemma updatePackages_spec:
  assumes "distinct (map iter m)"
  shows "fst (updatePackages pool aa its (n, m))
           = n + (\<Sum>it\<leftarrow>its. int (length (filter (\<lambda>d. d \<notin> set aa) (CalculateDescendants pool it))))
       \<and> distinct (map iter (snd (updatePackages pool aa its (n, m))))
       \<and> (\<forall>d. mod_find (snd (updatePackages pool aa its (n, m))) d =
             (if d \<notin> set aa \<and> committedParents pool its d \<noteq> []
              then Some (fold (update_for_parent_inclusion pool) (committedParents pool its d)
                           (trackedFigures pool m d))
              else mod_find m d))"
  using assms
proof (induction its arbitrary: n m)
  case Nil
  then show ?case by (simp add: committedParents_def)
next
  case (Cons it its)
  let ?ds = "CalculateDescendants pool it"
  obtain n1 m1 where u: "updateDescendants pool aa it ?ds (n, m) = (n1, m1)"
    by (cases "updateDescendants pool aa it ?ds (n, m)")
  have dd: "distinct ?ds" by (simp add: CalculateDescendants_def)
  from updateDescendants_spec[OF Cons.prems dd, of pool aa it n] u
  have n1: "n1 = n + int (length (filter (\<lambda>d. d \<notin> set aa) ?ds))"
    and d1: "distinct (map iter m1)"
    and f1: "\<And>d. mod_find m1 d =
             (if d \<in> set ?ds \<and> d \<notin> set aa
              then Some (update_for_parent_inclusion pool it (trackedFigures pool m d))
              else mod_find m d)"
    by simp_all
  have t1: "\<And>d. trackedFigures pool m1 d =
             (if d \<in> set ?ds \<and> d \<notin> set aa
              then update_for_parent_inclusion pool it (trackedFigures pool m d)
              else trackedFigures pool m d)"
    by (simp add: trackedFigures_def f1)
  note IH = Cons.IH[OF d1, of n1]
  have res: "updatePackages pool aa (it # its) (n, m) = updatePackages pool aa its (n1, m1)"
    using u by simp
  show ?case
    unfolding res using IH n1 f1 t1
    by (auto simp: committedParents_Cons)
qed

lemma fold_update_figures:
  "iter (fold (update_for_parent_inclusion pool) cs e) = iter e"
  "nSizeWithAncestors (fold (update_for_parent_inclusion pool) cs e)
     = nSizeWithAncestors e - (\<Sum>it\<leftarrow>cs. GetTxSize (entry pool it))"
  "nModFeesWithAncestors (fold (update_for_parent_inclusion pool) cs e)
     = nModFeesWithAncestors e - (\<Sum>it\<leftarrow>cs. GetModifiedFee (entry pool it))"
  "nSigOpCountWithAncestors (fold (update_for_parent_inclusion pool) cs e)
     = nSigOpCountWithAncestors e - (\<Sum>it\<leftarrow>cs. GetSigOpCount (entry pool it))"
  by (induction cs arbitrary: e; simp add: update_for_parent_inclusion_def diff_diff_eq)+

text \<open>
  Claim C5.  Let the tracker hold at most one entry per handle.  After
  \<^verbatim>\<open>UpdatePackagesForAdded\<close>, every in-pool descendant \<open>d\<close> of a committed transaction
  that is not itself in the committed set has a tracker entry whose ancestor-aggregate
  size, fee and sigop count are its previous aggregates (those of its tracker entry if
  it had one, those of the pool otherwise: a new entry is created at the first
  adjustment) minus the isolated size, fee and sigop count of each committed transaction
  it descends from, one subtraction per committed transaction; every other handle is
  looked up as before.  The returned count is the number of adjustments made: every
  committed transaction counts its descendants outside the committed set.
\<close>

theorem UpdatePackagesForAdded_spec:
  assumes "distinct (map iter m)"
  shows "fst (UpdatePackagesForAdded pool alreadyAdded m)
           = (\<Sum>it\<leftarrow>alreadyAdded.
                int (length (filter (\<lambda>d. d \<notin> set alreadyAdded) (CalculateDescendants pool it))))
       \<and> distinct (map iter (snd (UpdatePackagesForAdded pool alreadyAdded m)))
       \<and> (\<forall>d. mod_find (snd (UpdatePackagesForAdded pool alreadyAdded m)) d =
             (if d \<notin> set alreadyAdded \<and> committedParents pool alreadyAdded d \<noteq> []
              then Some \<lparr>iter = d,
                     nSizeWithAncestors =
                       nSizeWithAncestors (trackedFigures pool m d)
                         - (\<Sum>it\<leftarrow>committedParents pool alreadyAdded d. GetTxSize (entry pool it)),
                     nModFeesWithAncestors =
                       nModFeesWithAncestors (trackedFigures pool m d)
                         - (\<Sum>it\<leftarrow>committedParents pool alreadyAdded d. GetModifiedFee (entry pool it)),
                     nSigOpCountWithAncestors =
                       nSigOpCountWithAncestors (trackedFigures pool m d)
                         - (\<Sum>it\<leftarrow>committedParents pool alreadyAdded d. GetSigOpCount (entry pool it))\<rparr>
              else mod_find m d))"
proof -
  have e: "\<And>d cs. fold (update_for_parent_inclusion pool) cs (trackedFigures pool m d) =
        \<lparr>iter = d,
         nSizeWithAncestors = nSizeWithAncestors (trackedFigures pool m d)
                         - (\<Sum>it\<leftarrow>cs. GetTxSize (entry pool it)),
         nModFeesWithAncestors = nModFeesWithAncestors (trackedFigures pool m d)
                         - (\<Sum>it\<leftarrow>cs. GetModifiedFee (entry pool it)),
         nSigOpCountWithAncestors = nSigOpCountWithAncestors (trackedFigures pool m d)
                         - (\<Sum>it\<leftarrow>cs. GetSigOpCount (entry pool it))\<rparr>"
    using assms by (intro CTxMemPoolModifiedEntry.equality) (simp_all add: fold_update_figures)
  show ?thesis
    using updatePackages_spec[OF assms, of pool alreadyAdded alreadyAdded 0]
    unfolding UpdatePackagesForAdded_def e by simp
qed


theorem UpdatePackagesForAdded_spec_witness:
  "UpdatePackagesForAdded example_pool [0] [] =
     (2, [\<lparr>iter = 1, nSizeWithAncestors = 200, nModFeesWithAncestors = 1000,
            nSigOpCountWithAncestors = 1\<rparr>,
          \<lparr>iter = 2, nSizeWithAncestors = 350, nModFeesWithAncestors = 1300,
            nSigOpCountWithAncestors = 2\<rparr>]) \<and>
   UpdatePackagesForAdded example_pool [1]
     [\<lparr>iter = 2, nSizeWithAncestors = 350, nModFeesWithAncestors = 1300,
       nSigOpCountWithAncestors = 2\<rparr>] =
     (1, [\<lparr>iter = 2, nSizeWithAncestors = 150, nModFeesWithAncestors = 300,
            nSigOpCountWithAncestors = 1\<rparr>])"
proof -
  have d: "distinct (map iter ([] :: indexed_modified_transaction_set))" by simp
  show ?thesis
    using UpdatePackagesForAdded_spec[OF d, of example_pool "[0]"]
    by (simp add: example_pool_def mkEntry_def UpdatePackagesForAdded_def
        CalculateDescendants_def adjustDescendant_def mod_find_def mod_insert_def mod_count_def
        mod_modify_def mod_in_place_def CTxMemPoolModifiedEntry_of_def
        update_for_parent_inclusion_def CompareTxMemPoolEntryByAncestorFee_def
        ancestorFeeRate_def Let_def)
qed

section \<open>Properties of the selection step\<close>

lemma ancestorFeeRate_of_pool:
  "ancestorFeeRate (CTxMemPoolModifiedEntry_of pool t) = poolFeeRate pool t"
  by (simp add: ancestorFeeRate_def CTxMemPoolModifiedEntry_of_def poolFeeRate_def)

text \<open>
  Claim C3.  In a selection step that finds an entry \<open>t\<close> of \<^verbatim>\<open>mapTx\<close> that is not skipped
  and a best tracker entry \<open>modit\<close>: if the two ancestor fee-rates are exactly equal, the
  entry of \<^verbatim>\<open>mapTx\<close> is the one considered (and the walk along \<^verbatim>\<open>mapTx\<close> advances); the
  tracker entry is selected exactly when its ancestor fee-rate is strictly higher.
\<close>

theorem tie_break_prefers_mapTx:
  assumes "mi L = t # rest" and "mapModifiedTx L = modit # others"
    and "\<not> SkipMapTxEntry B t (mapModifiedTx L) (failedTx L)"
  shows "(ancestorFeeRate modit = poolFeeRate (m_mempool ctx) t \<longrightarrow>
            SelectCandidate (m_mempool ctx) (mi L) (mapModifiedTx L)
              = Some (CTxMemPoolModifiedEntry_of (m_mempool ctx) t, False, rest) \<and>
            loop_body ctx B L
              = considerPackage ctx B (L\<lparr>mi := rest\<rparr>)
                  (CTxMemPoolModifiedEntry_of (m_mempool ctx) t) False) \<and>
         (SelectCandidate (m_mempool ctx) (mi L) (mapModifiedTx L) = Some (modit, True, mi L)
            \<longleftrightarrow> ancestorFeeRate modit > poolFeeRate (m_mempool ctx) t) \<and>
         (ancestorFeeRate modit > poolFeeRate (m_mempool ctx) t \<longrightarrow>
            loop_body ctx B L = considerPackage ctx B L modit True)"
proof -
  have sel: "SelectCandidate (m_mempool ctx) (mi L) (mapModifiedTx L) =
        (if ancestorFeeRate modit > poolFeeRate (m_mempool ctx) t
         then Some (modit, True, mi L)
         else Some (CTxMemPoolModifiedEntry_of (m_mempool ctx) t, False, rest))"
    using assms(1,2)
    by (simp add: SelectCandidate_def CompareTxMemPoolEntryByAncestorFee_def
        ancestorFeeRate_of_pool)
  have body: "loop_body ctx B L =
        (case SelectCandidate (m_mempool ctx) (mi L) (mapModifiedTx L) of
           None \<Rightarrow> Exit LoopConditionFalse B L
         | Some (package, fUsingModified, mi') \<Rightarrow>
             considerPackage ctx B (L\<lparr>mi := mi'\<rparr>) package fUsingModified)"
    using assms by (simp add: loop_body_def)
  have L: "L\<lparr>mi := mi L\<rparr> = L" by simp
  show ?thesis
    unfolding body sel using L by auto
qed

theorem tie_break_prefers_mapTx_witness:
  "SelectCandidate example_pool [1, 3]
     [\<lparr>iter = 2, nSizeWithAncestors = 100, nModFeesWithAncestors = 500,
       nSigOpCountWithAncestors = 1\<rparr>]
     = Some (CTxMemPoolModifiedEntry_of example_pool 1, False, [3]) \<and>
   poolFeeRate example_pool 1 = 5 \<and>
   ancestorFeeRate \<lparr>iter = 2, nSizeWithAncestors = 100, nModFeesWithAncestors = 500,
                     nSigOpCountWithAncestors = 1\<rparr> = 5"
proof -
  let ?e = "\<lparr>iter = 2, nSizeWithAncestors = 100, nModFeesWithAncestors = 500,
             nSigOpCountWithAncestors = 1\<rparr>"
  let ?L = "\<lparr>mapModifiedTx = [?e], failedTx = [], mi = [1, 3], nConsecutiveFailed = 0,
             nPackagesSelected = 0, nDescendantsUpdated = 0\<rparr>"
  let ?B = "prepareBlock example_bc example_options"
  let ?ctx = "example_miner\<lparr>m_mempool := example_pool\<rparr>"
  have 1: "mi ?L = 1 # [3]" by simp
  have 2: "mapModifiedTx ?L = ?e # []" by simp
  have 3: "\<not> SkipMapTxEntry ?B 1 (mapModifiedTx ?L) (failedTx ?L)"
    by (simp add: SkipMapTxEntry_def mod_count_def prepareBlock_def resetBlock_def
        BlockAssembler_init_def example_defs Let_def)
  have r: "poolFeeRate example_pool 1 = 5" "ancestorFeeRate ?e = 5"
    by (simp_all add: poolFeeRate_def ancestorFeeRate_def example_pool_def mkEntry_def)
  show ?thesis
    using tie_break_prefers_mapTx[of ?L 1 "[3]" ?e "[]" ?B ?ctx, OF 1 2 3] r
    by simp
qed

section \<open>The loop invariant: block, tracker and assertion\<close>

lemma mempoolTxs_append [simp]: "mempoolTxs (xs @ ys) = mempoolTxs xs @ mempoolTxs ys"
  by (induction xs rule: mempoolTxs.induct) simp_all

lemma mempoolTxs_map [simp]: "mempoolTxs (map TxMempool ts) = ts"
  by (induction ts) simp_all

lemma addSortedEntries_tracker:
  "snd (addSortedEntries pool ts (B, m)) = filter (\<lambda>e. iter e \<notin> set ts) m"
  by (induction ts arbitrary: B m) (auto simp: mod_erase_def intro: filter_cong)

lemma commitPackage_L:
  assumes "commitPackage pool B L anc = (B', L')"
  shows "mapModifiedTx L' =
           snd (UpdatePackagesForAdded pool anc (filter (\<lambda>e. iter e \<notin> set anc) (mapModifiedTx L)))"
    and "mi L' = mi L" and "failedTx L' = failedTx L"
proof -
  have s: "set (SortForBlock pool anc) = set anc" by (simp add: SortForBlock_def)
  obtain B1 m1 where a: "addSortedEntries pool (SortForBlock pool anc) (B, mapModifiedTx L) = (B1, m1)"
    by (cases "addSortedEntries pool (SortForBlock pool anc) (B, mapModifiedTx L)")
  then have m1: "m1 = filter (\<lambda>e. iter e \<notin> set anc) (mapModifiedTx L)"
    using addSortedEntries_tracker[of pool "SortForBlock pool anc" B "mapModifiedTx L"] s by simp
  obtain n m2 where u: "UpdatePackagesForAdded pool anc m1 = (n, m2)"
    by (cases "UpdatePackagesForAdded pool anc m1")
  from assms a u show "mapModifiedTx L' =
           snd (UpdatePackagesForAdded pool anc (filter (\<lambda>e. iter e \<notin> set anc) (mapModifiedTx L)))"
    and "mi L' = mi L" and "failedTx L' = failedTx L"
    by (auto simp: commitPackage_def Let_def m1)
qed

lemma UpdatePackagesForAdded_entries:
  assumes "distinct (map iter m)"
  shows "distinct (map iter (snd (UpdatePackagesForAdded pool K m)))"
    and "e' \<in> set (snd (UpdatePackagesForAdded pool K m)) \<Longrightarrow>
          (if iter e' \<notin> set K \<and> committedParents pool K (iter e') \<noteq> []
           then e' = fold (update_for_parent_inclusion pool) (committedParents pool K (iter e'))
                       (trackedFigures pool m (iter e'))
           else e' \<in> set m)"
proof -
  note sp = updatePackages_spec[OF assms, of pool K K 0, folded UpdatePackagesForAdded_def]
  show d: "distinct (map iter (snd (UpdatePackagesForAdded pool K m)))" using sp by simp
  assume "e' \<in> set (snd (UpdatePackagesForAdded pool K m))"
  then have "mod_find (snd (UpdatePackagesForAdded pool K m)) (iter e') = Some e'"
    using d by (simp add: mod_find_Some_iff)
  then show "(if iter e' \<notin> set K \<and> committedParents pool K (iter e') \<noteq> []
           then e' = fold (update_for_parent_inclusion pool) (committedParents pool K (iter e'))
                       (trackedFigures pool m (iter e'))
           else e' \<in> set m)"
    using sp assms by (auto simp: mod_find_Some_iff split: if_splits)
qed

lemma committedParents_mem:
  "k \<in> set (committedParents pool K d) \<longleftrightarrow>
     k \<in> set K \<and> d \<in> set (mapTx_ancestor_score pool) \<and> k \<in> set (CalculateMemPoolAncestors pool d)"
  by (auto simp: committedParents_def CalculateDescendants_def)

lemma packageAncestors_set:
  "set (packageAncestors pool B it) =
     insert it (set (CalculateMemPoolAncestors pool it) - set (inBlock B))"
  by (auto simp: packageAncestors_def onlyUnconfirmed_def)

lemma packageAncestors_distinct:
  "distinct (CalculateMemPoolAncestors pool it) \<Longrightarrow> distinct (packageAncestors pool B it)"
  by (simp add: packageAncestors_def onlyUnconfirmed_def)

lemma SelectCandidate_handle:
  assumes "SelectCandidate pool mi_now m = Some (package, fUsingModified, mi')"
  shows "iter package \<in> set mi_now \<union> iter ` set m" and "set mi' \<subseteq> set mi_now"
    and "fUsingModified \<Longrightarrow> m \<noteq> [] \<and> package = hd m"
    and "\<not> fUsingModified \<Longrightarrow> mi_now \<noteq> [] \<and> package = CTxMemPoolModifiedEntry_of pool (hd mi_now) \<and> mi' = tl mi_now"
  using assms
  by (auto simp: SelectCandidate_def CTxMemPoolModifiedEntry_of_def split: list.splits if_splits)

lemma set_tl_subset: "set (tl xs) \<subseteq> set xs"
  by (cases xs) auto

lemma packageFailed_tracker:
  "fUsingModified \<Longrightarrow> mapModifiedTx (packageFailed L fUsingModified it) = tl (mapModifiedTx L)"
  "\<not> fUsingModified \<Longrightarrow> mapModifiedTx (packageFailed L fUsingModified it) = mapModifiedTx L"
  "set (mapModifiedTx (packageFailed L fUsingModified it)) \<subseteq> set (mapModifiedTx L)"
  "distinct (map iter (mapModifiedTx L)) \<Longrightarrow> distinct (map iter (mapModifiedTx (packageFailed L fUsingModified it)))"
  using set_tl_subset[of "mapModifiedTx L"] by (auto simp: packageFailed_def distinct_tl map_tl)

lemma commit_consistent:
  assumes wf: "ancestry_consistent pool"
    and bc: "block_consistent pool B" and tc: "tracker_consistent pool B L"
    and it: "it \<in> set (mapTx_ancestor_score pool)" "it \<notin> set (inBlock B)"
    and c: "commitPackage pool B L (packageAncestors pool B it) = (B', L')"
  shows "block_consistent pool B'" and "tracker_consistent pool B' L'"
proof -
  let ?anc = "CalculateMemPoolAncestors pool"
  let ?K = "packageAncestors pool B it"
  let ?T = "set (mapTx_ancestor_score pool)"
  from wf it(1) have w: "distinct (?anc it)" "it \<notin> set (?anc it)" "set (?anc it) \<subseteq> ?T"
    "\<And>a. a \<in> set (?anc it) \<Longrightarrow> set (?anc a) \<subseteq> set (?anc it)"
    by (auto simp: ancestry_consistent_def)
  have K: "set ?K = insert it (set (?anc it) - set (inBlock B))" by (rule packageAncestors_set)
  have Kd: "distinct ?K" using w(1) by (rule packageAncestors_distinct)
  have KB: "set ?K \<inter> set (inBlock B) = {}" using K it(2) by auto
  have inB: "set (inBlock B') = set ?K \<union> set (inBlock B)" using commitPackage_sets(1)[OF c] .
  have vtx: "mempoolTxs (vtx B') = mempoolTxs (vtx B) @ SortForBlock pool ?K"
    using commitPackage_B[OF c] by (simp add: addSortedEntries_fields)
  have sK: "set (SortForBlock pool ?K) = set ?K" "distinct (SortForBlock pool ?K)"
    using Kd by (simp_all add: SortForBlock_def)
  from bc have b: "distinct (mempoolTxs (vtx B))" "set (mempoolTxs (vtx B)) = set (inBlock B)"
    "\<And>d. d \<in> set (inBlock B) \<Longrightarrow> set (?anc d) \<subseteq> set (inBlock B)"
    by (auto simp: block_consistent_def)
  have closed: "\<And>d. d \<in> set (inBlock B') \<Longrightarrow> set (?anc d) \<subseteq> set (inBlock B')"
  proof -
    fix d assume "d \<in> set (inBlock B')"
    then consider "d \<in> set (inBlock B)" | "d = it" | "d \<in> set (?anc it)"
      using inB K by auto
    then show "set (?anc d) \<subseteq> set (inBlock B')"
    proof cases
      case 1 then show ?thesis using b(3) inB by blast
    next
      case 2 then show ?thesis using inB K by auto
    next
      case 3
      then have "set (?anc d) \<subseteq> set (?anc it)" by (rule w(4))
      then show ?thesis using inB K by auto
    qed
  qed
  show "block_consistent pool B'"
    unfolding block_consistent_def using vtx sK b(1,2) KB inB closed by auto
  from tc have t: "set (mi L) \<subseteq> ?T" "iter ` set (mapModifiedTx L) \<subseteq> ?T"
    "distinct (map iter (mapModifiedTx L))" "set (inBlock B) \<inter> iter ` set (mapModifiedTx L) = {}"
    by (auto simp: tracker_consistent_def)
  let ?m1 = "filter (\<lambda>e. iter e \<notin> set ?K) (mapModifiedTx L)"
  note cl = commitPackage_L[OF c]
  have d1: "distinct (map iter ?m1)" using t(3) by (simp add: distinct_map_filter)
  note ue = UpdatePackagesForAdded_entries[OF d1, where pool = pool and K = ?K]
  have keys: "iter ` set (mapModifiedTx L') \<subseteq> ?T"
    using UpdatePackagesForAdded_keys[of pool ?K ?m1] t(2) unfolding cl(1) by auto
  have disj: "set (inBlock B') \<inter> iter ` set (mapModifiedTx L') = {}"
  proof (rule ccontr)
    assume "set (inBlock B') \<inter> iter ` set (mapModifiedTx L') \<noteq> {}"
    then obtain e' where e': "e' \<in> set (mapModifiedTx L')" "iter e' \<in> set (inBlock B')" by auto
    let ?d = "iter e'"
    from e'(1) have mem: "e' \<in> set (snd (UpdatePackagesForAdded pool ?K ?m1))" by (simp add: cl(1))
    show False
    proof (cases "?d \<notin> set ?K \<and> committedParents pool ?K ?d \<noteq> []")
      case True
      then obtain k where k: "k \<in> set (committedParents pool ?K ?d)"
        by (cases "committedParents pool ?K ?d") auto
      then have kk: "k \<in> set ?K" "k \<in> set (?anc ?d)" by (simp_all add: committedParents_mem)
      from True e'(2) inB have "?d \<in> set (inBlock B)" by auto
      then have "k \<in> set (inBlock B)" using b(3) kk(2) by blast
      then show False using kk(1) KB by auto
    next
      case False
      then have "e' \<in> set ?m1" using ue(2)[OF mem] by (simp split: if_splits)
      then have "?d \<notin> set ?K" "?d \<in> iter ` set (mapModifiedTx L)" by auto
      then show False using e'(2) inB t(4) by auto
    qed
  qed
  show "tracker_consistent pool B' L'"
    unfolding tracker_consistent_def using t(1) cl(2) keys ue(1) cl(1) disj by simp
qed


lemma tracker_consistentI:
  assumes "set (mi L) \<subseteq> set (mapTx_ancestor_score pool)"
    and "iter ` set (mapModifiedTx L) \<subseteq> set (mapTx_ancestor_score pool)"
    and "distinct (map iter (mapModifiedTx L))"
    and "set (inBlock B) \<inter> iter ` set (mapModifiedTx L) = {}"
  shows "tracker_consistent pool B L"
  using assms by (simp add: tracker_consistent_def)

lemma tracker_consistentD:
  assumes "tracker_consistent pool B L"
  shows "set (mi L) \<subseteq> set (mapTx_ancestor_score pool)"
    and "iter ` set (mapModifiedTx L) \<subseteq> set (mapTx_ancestor_score pool)"
    and "distinct (map iter (mapModifiedTx L))"
    and "set (inBlock B) \<inter> iter ` set (mapModifiedTx L) = {}"
  using assms by (simp_all add: tracker_consistent_def)

lemma tracker_consistent_shrink:
  assumes "tracker_consistent pool B L"
    and "set (mi L') \<subseteq> set (mi L)"
    and "set (mapModifiedTx L') \<subseteq> set (mapModifiedTx L)"
    and "distinct (map iter (mapModifiedTx L'))"
  shows "tracker_consistent pool B L'"
proof (rule tracker_consistentI)
  note d = tracker_consistentD[OF assms(1)]
  show "set (mi L') \<subseteq> set (mapTx_ancestor_score pool)" using d(1) assms(2) by blast
  show "iter ` set (mapModifiedTx L') \<subseteq> set (mapTx_ancestor_score pool)"
    using d(2) assms(3) by blast
  show "distinct (map iter (mapModifiedTx L'))" by fact
  show "set (inBlock B) \<inter> iter ` set (mapModifiedTx L') = {}" using d(4) assms(3) by blast
qed

lemma loop_body_consistent:
  assumes wf: "ancestry_consistent (m_mempool ctx)"
    and bc: "block_consistent (m_mempool ctx) B" and tc: "tracker_consistent (m_mempool ctx) B L"
    and c: "loop_body ctx B L = Continue B' L'"
  shows "block_consistent (m_mempool ctx) B' \<and> tracker_consistent (m_mempool ctx) B' L'"
  using c
proof (cases rule: loop_body_ContinueE)
  case skip
  have "tracker_consistent (m_mempool ctx) B L'"
    using tc
  proof (rule tracker_consistent_shrink)
    show "set (mi L') \<subseteq> set (mi L)" using skip(4) set_tl_subset[of "mi L"] by simp
    show "set (mapModifiedTx L') \<subseteq> set (mapModifiedTx L)" using skip(4) by simp
    show "distinct (map iter (mapModifiedTx L'))"
      using skip(4) tracker_consistentD(3)[OF tc] by simp
  qed
  then show ?thesis using bc skip(3) by simp
next
  case (fail package fUsingModified mi')
  note h = SelectCandidate_handle[OF fail(1)]
  have "tracker_consistent (m_mempool ctx) B L'"
    using tc
  proof (rule tracker_consistent_shrink)
    show "set (mi L') \<subseteq> set (mi L)" using fail(7) h(2) by simp
    show "set (mapModifiedTx L') \<subseteq> set (mapModifiedTx L)"
      using fail(5) packageFailed_tracker(3)[of "L\<lparr>mi := mi'\<rparr>" fUsingModified "iter package"]
      by simp
    show "distinct (map iter (mapModifiedTx L'))"
      using fail(5) tracker_consistentD(3)[OF tc]
        packageFailed_tracker(4)[of "L\<lparr>mi := mi'\<rparr>" fUsingModified "iter package"]
      by simp
  qed
  then show ?thesis using bc fail(4) by simp
next
  case (commit package fUsingModified mi')
  note h = SelectCandidate_handle[OF commit(1)]
  have tc0: "tracker_consistent (m_mempool ctx) B (L\<lparr>mi := mi'\<rparr>)"
    using tc
  proof (rule tracker_consistent_shrink)
    show "set (mi (L\<lparr>mi := mi'\<rparr>)) \<subseteq> set (mi L)" using h(2) by simp
    show "distinct (map iter (mapModifiedTx (L\<lparr>mi := mi'\<rparr>)))"
      using tracker_consistentD(3)[OF tc] by simp
  qed simp
  have "iter package \<in> set (mapTx_ancestor_score (m_mempool ctx))"
    using h(1) tracker_consistentD(1,2)[OF tc] by blast
  then show ?thesis
    using commit_consistent[OF wf bc tc0 _ commit(3) commit(7)] by simp
qed

lemma initialLoop_fields:
  "mapModifiedTx (initialLoop ctx B) = snd (UpdatePackagesForAdded (m_mempool ctx) (inBlock B) [])"
  "mi (initialLoop ctx B) = mapTx_ancestor_score (m_mempool ctx)"
  "failedTx (initialLoop ctx B) = []"
  by (simp_all add: initialLoop_def Let_def split: prod.splits)

lemma initialLoop_consistent:
  "tracker_consistent (m_mempool ctx) B (initialLoop ctx B)"
proof -
  let ?pool = "m_mempool ctx"
  have d: "distinct (map iter ([] :: indexed_modified_transaction_set))" by simp
  note ue = UpdatePackagesForAdded_entries[OF d, where pool = ?pool and K = "inBlock B"]
  have "iter e' \<notin> set (inBlock B)"
    if mem: "e' \<in> set (snd (UpdatePackagesForAdded ?pool (inBlock B) []))" for e'
    using ue(2)[OF mem] by (cases "iter e' \<in> set (inBlock B)") simp_all
  then have "set (inBlock B) \<inter> iter ` set (snd (UpdatePackagesForAdded ?pool (inBlock B) [])) = {}"
    by blast
  moreover have "iter ` set (snd (UpdatePackagesForAdded ?pool (inBlock B) []))
                   \<subseteq> set (mapTx_ancestor_score ?pool)"
    using UpdatePackagesForAdded_keys[of ?pool "inBlock B" "[]"] by simp
  ultimately show ?thesis
    by (intro tracker_consistentI) (simp_all add: initialLoop_fields ue(1))
qed

lemma loop_body_no_assertion_failure:
  assumes "tracker_consistent (m_mempool ctx) B L"
  shows "loop_body ctx B L \<noteq> AssertionFailure"
proof
  assume a: "loop_body ctx B L = AssertionFailure"
  then obtain package fUsingModified mi' where
    ns: "\<not> (mi L \<noteq> [] \<and> SkipMapTxEntry B (hd (mi L)) (mapModifiedTx L) (failedTx L))"
    and sel: "SelectCandidate (m_mempool ctx) (mi L) (mapModifiedTx L) = Some (package, fUsingModified, mi')"
    and cp: "considerPackage ctx B (L\<lparr>mi := mi'\<rparr>) package fUsingModified = AssertionFailure"
    by (auto simp: loop_body_def split: if_splits option.splits)
  from cp have inb: "iter package \<in> set (inBlock B)"
    by (auto simp: considerPackage_def Let_def split: if_splits prod.splits)
  note h = SelectCandidate_handle[OF sel]
  show False
  proof (cases fUsingModified)
    case True
    then have "package \<in> set (mapModifiedTx L)" using h(3) by auto
    then show False using inb tracker_consistentD(4)[OF assms] by blast
  next
    case False
    then have "mi L \<noteq> []" "iter package = hd (mi L)"
      using h(4) by (simp_all add: CTxMemPoolModifiedEntry_of_def)
    then show False using ns inb by (simp add: SkipMapTxEntry_def)
  qed
qed

lemma loop_body_Exit_tracker:
  assumes "loop_body ctx B L = Exit r B' L'"
  shows "B' = B" and "set (mapModifiedTx L') \<subseteq> set (mapModifiedTx L)"
proof -
  show "B' = B" using assms by (rule loop_body_Exit)
  show "set (mapModifiedTx L') \<subseteq> set (mapModifiedTx L)"
  proof (cases "SelectCandidate (m_mempool ctx) (mi L) (mapModifiedTx L)")
    case None
    then show ?thesis using assms by (simp add: loop_body_def split: if_splits)
  next
    case (Some sel)
    obtain package fUsingModified mi' where sel: "sel = (package, fUsingModified, mi')"
      by (cases sel)
    let ?F = "packageFailed (L\<lparr>mi := mi'\<rparr>) fUsingModified (iter package)"
    have "L' = L \<or> considerPackage ctx B (L\<lparr>mi := mi'\<rparr>) package fUsingModified = Exit r B' L'"
      using assms Some sel by (simp add: loop_body_def split: if_splits)
    then have "L' = L \<or> L' = L\<lparr>mi := mi'\<rparr>
                \<or> L' = ?F\<lparr>nConsecutiveFailed := nConsecutiveFailed ?F + 1\<rparr>"
      by (auto simp: considerPackage_def Let_def split: if_splits prod.splits)
    then show ?thesis
      using packageFailed_tracker(3)[of "L\<lparr>mi := mi'\<rparr>" fUsingModified "iter package"] by auto
  qed
qed

lemma loop_reaches_consistent:
  assumes wf: "ancestry_consistent (m_mempool ctx)"
    and "loop_reaches ctx B L B' L'"
    and "block_consistent (m_mempool ctx) B" and "tracker_consistent (m_mempool ctx) B L"
  shows "block_consistent (m_mempool ctx) B' \<and> tracker_consistent (m_mempool ctx) B' L'"
  using assms(2-)
proof (induction rule: loop_reaches.induct)
  case loop_reaches_start
  then show ?case by simp
next
  case (loop_reaches_pass B1 L1 B2 L2)
  then have "block_consistent (m_mempool ctx) B1" "tracker_consistent (m_mempool ctx) B1 L1"
    by simp_all
  then show ?case
    by (rule loop_body_consistent[OF wf _ _ loop_reaches_pass.hyps(2)])
qed

lemma addPackageTxs_loop_returns:
  assumes "P B L"
    and "\<And>B L. P B L \<Longrightarrow> loop_body ctx B L \<noteq> AssertionFailure"
    and "\<And>B L B1 L1. P B L \<Longrightarrow> loop_body ctx B L = Continue B1 L1 \<Longrightarrow> P B1 L1"
  shows "\<exists>r B' L'. addPackageTxs_loop ctx B L = Returned r B' L'"
  using assms
proof (induction ctx B L rule: addPackageTxs_loop.induct)
  case (1 ctx B L)
  show ?case
  proof (cases "loop_body ctx B L")
    case (Continue B1 L1)
    then have "P B1 L1" by (rule "1.prems"(3)[OF "1.prems"(1)])
    then have "\<exists>r B' L'. addPackageTxs_loop ctx B1 L1 = Returned r B' L'"
      by (rule "1.IH"[OF Continue _ "1.prems"(2,3)])
    then show ?thesis using Continue by (simp add: addPackageTxs_loop.simps[of ctx B L])
  next
    case (Exit r B2 L2)
    then show ?thesis by (simp add: addPackageTxs_loop.simps[of ctx B L])
  next
    case AssertionFailure
    then show ?thesis using "1.prems"(2)[OF "1.prems"(1)] by simp
  qed
qed

lemma addPackageTxs_loop_reaches:
  assumes "addPackageTxs_loop ctx B L = Returned r B' L'"
  shows "\<exists>L2. loop_reaches ctx B L B' L2 \<and> loop_body ctx B' L2 = Exit r B' L'"
  by (rule addPackageTxs_loop_invariant[OF assms, where P = "\<lambda>B1 L1. loop_reaches ctx B L B1 L1"])
     (rule loop_reaches_start, erule (1) loop_reaches_pass)


lemma prepareBlock_block_consistent: "block_consistent pool (prepareBlock bc options)"
proof -
  have a: "mempoolTxs (vtx (addCommitments qcs B)) = mempoolTxs (vtx B)"
          "inBlock (addCommitments qcs B) = inBlock B" for qcs B
    by (induction qcs arbitrary: B; simp)+
  show ?thesis
    by (simp add: block_consistent_def prepareBlock_def Let_def a resetBlock_def)
qed

lemma ancestors_first_topological:
  assumes "ancestors_first pool ts" "distinct ts"
  shows "topological pool ts"
  unfolding topological_def
proof (intro allI impI notI)
  fix i j assume ij: "i < j \<and> j < length ts"
    and m: "ts ! j \<in> set (CalculateMemPoolAncestors pool (ts ! i))"
  have "i < length ts" using ij by simp
  then have "set (CalculateMemPoolAncestors pool (ts ! i)) \<subseteq> set (take i ts)"
    using assms(1) by (simp add: ancestors_first_def)
  then have "ts ! j \<in> set (take i ts)" using m by blast
  then obtain k where k: "k < i" "k < length ts" "ts ! k = ts ! j"
    by (auto simp: in_set_conv_nth)
  then show False using assms(2) ij by (auto simp: nth_eq_iff_index_eq)
qed

lemma ancestor_count_less:
  assumes wf: "ancestry_consistent pool" and cc: "counts_consistent pool"
    and k: "k \<in> set (mapTx_ancestor_score pool)"
    and a: "a \<in> set (CalculateMemPoolAncestors pool k)"
  shows "unat (GetCountWithAncestors (entry pool a)) < unat (GetCountWithAncestors (entry pool k))"
proof -
  let ?anc = "CalculateMemPoolAncestors pool"
  from wf k have wk: "distinct (?anc k)" "set (?anc k) \<subseteq> set (mapTx_ancestor_score pool)"
    "set (?anc a) \<subseteq> set (?anc k)"
    using a by (auto simp: ancestry_consistent_def)
  then have aT: "a \<in> set (mapTx_ancestor_score pool)" using a by blast
  with wf have wa: "distinct (?anc a)" "a \<notin> set (?anc a)"
    by (auto simp: ancestry_consistent_def)
  have "set (?anc a) \<subset> set (?anc k)" using wk(3) wa(2) a by blast
  then have "card (set (?anc a)) < card (set (?anc k))" by (intro psubset_card_mono) auto
  then have "length (?anc a) < length (?anc k)"
    using wk(1) wa(1) by (simp add: distinct_card)
  then show ?thesis using cc k aT by (simp add: counts_consistent_def)
qed

lemma sorted_key_before:
  assumes "sorted (map f xs)" "j < length xs" "a \<in> set xs" "f a < f (xs ! j)"
  shows "a \<in> set (take j xs)"
proof -
  from assms(3) obtain i where i: "i < length xs" "xs ! i = a" by (auto simp: in_set_conv_nth)
  have "i < j"
  proof (rule ccontr)
    assume "\<not> i < j"
    then have "j \<le> i" by simp
    then have "map f xs ! j \<le> map f xs ! i" using assms(1) i(1) by (simp add: sorted_iff_nth_mono)
    then show False using assms(2,4) i by simp
  qed
  then show ?thesis using i assms(2) by (auto simp: in_set_conv_nth)
qed

lemma commit_ancestors_first:
  assumes wf: "ancestry_consistent pool" and cc: "counts_consistent pool"
    and bc: "block_consistent pool B"
    and af: "ancestors_first pool (mempoolTxs (vtx B))"
    and it: "it \<in> set (mapTx_ancestor_score pool)" "it \<notin> set (inBlock B)"
    and c: "commitPackage pool B L (packageAncestors pool B it) = (B', L')"
  shows "ancestors_first pool (mempoolTxs (vtx B'))"
proof -
  let ?anc = "CalculateMemPoolAncestors pool"
  let ?K = "packageAncestors pool B it"
  let ?T = "set (mapTx_ancestor_score pool)"
  let ?old = "mempoolTxs (vtx B)"
  let ?sk = "SortForBlock pool ?K"
  let ?cnt = "\<lambda>t. unat (GetCountWithAncestors (entry pool t))"
  from wf it(1) have w: "set (?anc it) \<subseteq> ?T"
    "\<And>a. a \<in> set (?anc it) \<Longrightarrow> set (?anc a) \<subseteq> set (?anc it)"
    by (auto simp: ancestry_consistent_def)
  have K: "set ?K = insert it (set (?anc it) - set (inBlock B))" by (rule packageAncestors_set)
  have KT: "set ?K \<subseteq> ?T" using K w(1) it(1) by auto
  have vtx: "mempoolTxs (vtx B') = ?old @ ?sk"
    using commitPackage_B[OF c] by (simp add: addSortedEntries_fields)
  have sk: "set ?sk = set ?K" "sorted (map ?cnt ?sk)" by (simp_all add: SortForBlock_def)
  from bc have b: "set ?old = set (inBlock B)" by (simp add: block_consistent_def)
  have Kanc: "set (?anc k) \<subseteq> set (inBlock B) \<union> set ?K" if "k \<in> set ?K" for k
  proof (cases "k = it")
    case True then show ?thesis using K by auto
  next
    case False
    then have "k \<in> set (?anc it)" using that K by auto
    then have "set (?anc k) \<subseteq> set (?anc it)" by (rule w(2))
    then show ?thesis using K by auto
  qed
  show ?thesis
    unfolding ancestors_first_def vtx
  proof (intro allI impI)
    fix i assume i: "i < length (?old @ ?sk)"
    show "set (?anc ((?old @ ?sk) ! i)) \<subseteq> set (take i (?old @ ?sk))"
    proof (cases "i < length ?old")
      case True
      then have "set (?anc (?old ! i)) \<subseteq> set (take i ?old)"
        using af by (simp add: ancestors_first_def)
      then show ?thesis using True by (auto simp: nth_append)
    next
      case False
      define j where "j = i - length ?old"
      have j: "j < length ?sk" "i = length ?old + j" using i False by (simp_all add: j_def)
      let ?k = "?sk ! j"
      have kK: "?k \<in> set ?K" using j(1) sk(1) nth_mem by blast
      have tk: "take i (?old @ ?sk) = ?old @ take j ?sk" using j(2) by simp
      have "a \<in> set (?old @ take j ?sk)" if a: "a \<in> set (?anc ?k)" for a
      proof (cases "a \<in> set (inBlock B)")
        case True then show ?thesis using b by simp
      next
        case False
        then have aK: "a \<in> set ?sk" using Kanc[OF kK] a sk(1) by auto
        have "?cnt a < ?cnt ?k"
          using ancestor_count_less[OF wf cc _ a] kK KT by blast
        then have "a \<in> set (take j ?sk)" by (rule sorted_key_before[OF sk(2) j(1) aK])
        then show ?thesis by simp
      qed
      then show ?thesis unfolding tk using j(2) by (auto simp: nth_append)
    qed
  qed
qed

lemma loop_body_ancestors_first:
  assumes wf: "ancestry_consistent (m_mempool ctx)" and cc: "counts_consistent (m_mempool ctx)"
    and bc: "block_consistent (m_mempool ctx) B" and tc: "tracker_consistent (m_mempool ctx) B L"
    and af: "ancestors_first (m_mempool ctx) (mempoolTxs (vtx B))"
    and c: "loop_body ctx B L = Continue B' L'"
  shows "ancestors_first (m_mempool ctx) (mempoolTxs (vtx B'))"
  using c
proof (cases rule: loop_body_ContinueE)
  case skip
  then show ?thesis using af by simp
next
  case (fail package fUsingModified mi')
  then show ?thesis using af by simp
next
  case (commit package fUsingModified mi')
  have "iter package \<in> set (mapTx_ancestor_score (m_mempool ctx))"
    using SelectCandidate_handle(1)[OF commit(1)] tracker_consistentD(1,2)[OF tc] by blast
  then show ?thesis
    using commit_ancestors_first[OF wf cc bc af _ commit(3) commit(7)] by simp
qed


lemma loop_reaches_invariant:
  assumes "loop_reaches ctx B L B' L'" and "P B L"
    and "\<And>B1 L1 B2 L2. P B1 L1 \<Longrightarrow> loop_body ctx B1 L1 = Continue B2 L2 \<Longrightarrow> P B2 L2"
  shows "P B' L'"
  using assms(1,2)
proof (induction rule: loop_reaches.induct)
  case loop_reaches_start
  then show ?case by simp
next
  case (loop_reaches_pass B1 L1 B2 L2)
  then have "P B1 L1" by simp
  then show ?case using loop_reaches_pass.hyps(2) by (rule assms(3))
qed

section \<open>A run of the loop on the example pool\<close>

lemma ex_block: "example_block =
   \<lparr>nBlockMaxSize = 1999000, blockMinFeeRate = 1, nBlockSize = 1300, nBlockTx = 1, nBlockSigOps = 100,
    nFees = 0, nSpecialTxFees = 0, inBlock = [], vtx = [TxNull, TxQuorumCommitment 300],
    vTxFees = [-1, 0], vSpecialTxFees = [-1, 0], vTxSigOps = [-1, 0]\<rparr>"
  by (simp add: example_block_def example_defs example_ctx_def prepareBlock_def resetBlock_def BlockAssembler_init_def Let_def)

lemma ex_run: "addPackageTxs example_ctx example_block =
  Returned LoopConditionFalse
   \<lparr>nBlockMaxSize = 1999000, blockMinFeeRate = 1, nBlockSize = 1870, nBlockTx = 5, nBlockSigOps = 104,
    nFees = 2040, nSpecialTxFees = 0, inBlock = [2, 3, 1, 0],
    vtx = [TxNull, TxQuorumCommitment 300, TxMempool 0, TxMempool 1, TxMempool 3, TxMempool 2],
    vTxFees = [-1, 0, 500, 1000, 240, 300], vSpecialTxFees = [-1, 0, 0, 0, 0, 0],
    vTxSigOps = [-1, 0, 1, 1, 1, 1]\<rparr>
   \<lparr>mapModifiedTx = [], failedTx = [], mi = [], nConsecutiveFailed = 0, nPackagesSelected = 4,
    nDescendantsUpdated = 3\<rparr>"
  unfolding ex_block
  by (simp add: example_ctx_def example_miner_def example_pool_def mkEntry_def loop_defs)


lemma example_pool_ancestry: "ancestry_consistent (m_mempool example_ctx)"
  by (simp add: ancestry_consistent_def example_ctx_def example_pool_def)

lemma example_pool_counts: "counts_consistent (m_mempool example_ctx)"
  by (simp add: counts_consistent_def example_ctx_def example_pool_def mkEntry_def)

lemma example_block_consistent: "block_consistent (m_mempool example_ctx) example_block"
  unfolding example_block_def by (rule prepareBlock_block_consistent)

section \<open>The capacity invariant of the loop\<close>

lemma covered_mono: "covered f v A whole \<Longrightarrow> A \<subseteq> A' \<Longrightarrow> covered f v A' whole"
  unfolding covered_def by blast

lemma covered_start: "covered f whole A whole"
  unfolding covered_def by (intro exI[of _ "{}"]) simp

lemma covered_le: "covered f v A whole \<Longrightarrow> v \<le> whole"
  unfolding covered_def by auto

lemma covered_rest:
  assumes c: "covered f v (D \<inter> S) whole" and t: "whole = sum f D + own" and fin: "finite D"
  shows "sum f (D - S) + own \<le> v"
proof -
  from c obtain C where C: "C \<subseteq> D \<inter> S" "v + sum f C = whole" unfolding covered_def by blast
  have "sum f D = sum f (D - C) + sum f C"
    using C(1) fin by (metis Int_subset_iff sum.subset_diff)
  then have v: "v = sum f (D - C) + own" using C(2) t by simp
  have "sum f (D - S) \<le> sum f (D - C)"
    using C(1) fin by (intro sum_mono2) auto
  then show ?thesis using v by simp
qed

lemma covered_subtract:
  assumes c: "covered f v (D \<inter> S) whole" and t: "whole = sum f D + own" and fin: "finite D"
    and cs: "distinct cs" "set cs \<subseteq> D - S"
  shows "sum_list (map f cs) \<le> v"
    and "covered f (v - sum_list (map f cs)) (D \<inter> (S \<union> set cs)) whole"
proof -
  from c obtain C where C: "C \<subseteq> D \<inter> S" "v + sum f C = whole" unfolding covered_def by blast
  have sl: "sum_list (map f cs) = sum f (set cs)"
    using cs(1) by (simp add: sum_list_distinct_conv_sum_set)
  have "sum f (set cs) \<le> sum f (D - S)" using cs(2) fin by (intro sum_mono2) auto
  also have "\<dots> \<le> sum f (D - S) + own" by simp
  also have "\<dots> \<le> v" by (rule covered_rest[OF c t fin])
  finally show le: "sum_list (map f cs) \<le> v" using sl by simp
  have disj: "C \<inter> set cs = {}" using C(1) cs(2) by auto
  have finC: "finite C" using C(1) fin by (meson finite_Int finite_subset)
  have "sum f (C \<union> set cs) = sum f C + sum f (set cs)"
    using disj finC by (intro sum.union_disjoint) auto
  then have "(v - sum_list (map f cs)) + sum f (C \<union> set cs) = whole"
    using le sl C(2) by simp
  moreover have "C \<union> set cs \<subseteq> D \<inter> (S \<union> set cs)" using C(1) cs(2) by auto
  ultimately show "covered f (v - sum_list (map f cs)) (D \<inter> (S \<union> set cs)) whole"
    unfolding covered_def by blast
qed

lemma unat_sum_list_le:
  fixes g :: "'b \<Rightarrow> 'a::len word"
  shows "unat (sum_list (map g xs)) \<le> sum_list (map (\<lambda>x. unat (g x)) xs)"
proof (induction xs)
  case Nil
  then show ?case by simp
next
  case (Cons x xs)
  have "unat (g x + sum_list (map g xs)) \<le> unat (g x) + unat (sum_list (map g xs))"
    by (simp add: unat_word_ariths) 
  then show ?case using Cons by simp
qed

lemma unat_sum_list_eq:
  fixes g :: "'b \<Rightarrow> 'a::len word"
  assumes "sum_list (map (\<lambda>x. unat (g x)) xs) < 2 ^ LENGTH('a)"
  shows "unat (sum_list (map g xs)) = sum_list (map (\<lambda>x. unat (g x)) xs)"
  using assms
proof (induction xs)
  case Nil
  then show ?case by simp
next
  case (Cons x xs)
  then have "unat (sum_list (map g xs)) = sum_list (map (\<lambda>x. unat (g x)) xs)" by simp
  then show ?case using Cons.prems by (simp add: unat_word_ariths)
qed

lemma unat_minus_sum_list:
  fixes g :: "'b \<Rightarrow> 'a::len word" and x :: "'a word"
  assumes "sum_list (map (\<lambda>c. unat (g c)) cs) \<le> unat x"
  shows "unat (x - sum_list (map g cs)) = unat x - sum_list (map (\<lambda>c. unat (g c)) cs)"
proof -
  have "sum_list (map (\<lambda>c. unat (g c)) cs) < 2 ^ LENGTH('a)"
    using assms unsigned_less[of x] by (rule le_less_trans)
  then have e: "unat (sum_list (map g cs)) = sum_list (map (\<lambda>c. unat (g c)) cs)"
    by (rule unat_sum_list_eq)
  then have "sum_list (map g cs) \<le> x" using assms by (simp add: word_le_nat_alt)
  then show ?thesis using e by (simp add: unat_sub)
qed

lemma unat_plus_sum_list:
  fixes g :: "'b \<Rightarrow> 'a::len word" and x :: "'a word"
  assumes "unat x + sum_list (map (\<lambda>c. unat (g c)) cs) < 2 ^ LENGTH('a)"
  shows "unat (x + sum_list (map g cs)) = unat x + sum_list (map (\<lambda>c. unat (g c)) cs)"
proof -
  have "sum_list (map (\<lambda>c. unat (g c)) cs) < 2 ^ LENGTH('a)" using assms by simp
  then have e: "unat (sum_list (map g cs)) = sum_list (map (\<lambda>c. unat (g c)) cs)"
    by (rule unat_sum_list_eq)
  show ?thesis using assms e by (simp add: unat_word_ariths)
qed

lemma entry_covers_pool: "entry_covers pool B (CTxMemPoolModifiedEntry_of pool t)"
  by (simp add: entry_covers_def CTxMemPoolModifiedEntry_of_def covered_start)

lemma entry_covers_mono:
  "entry_covers pool B e \<Longrightarrow> set (inBlock B) \<subseteq> set (inBlock B') \<Longrightarrow> entry_covers pool B' e"
  unfolding entry_covers_def by (meson covered_mono Int_mono subset_refl)

lemma aggregates_as_sums:
  assumes wf: "ancestry_consistent pool" and ag: "aggregates_consistent pool"
    and t: "t \<in> set (mapTx_ancestor_score pool)"
  shows "unat (GetSizeWithAncestors (entry pool t))
           = sum (txSize pool) (set (CalculateMemPoolAncestors pool t)) + txSize pool t"
    and "unat (GetSigOpCountWithAncestors (entry pool t))
           = sum (txSigOps pool) (set (CalculateMemPoolAncestors pool t)) + txSigOps pool t"
proof -
  have d: "distinct (CalculateMemPoolAncestors pool t)"
    using wf t by (simp add: ancestry_consistent_def)
  show "unat (GetSizeWithAncestors (entry pool t))
           = sum (txSize pool) (set (CalculateMemPoolAncestors pool t)) + txSize pool t"
    using ag t d by (simp add: aggregates_consistent_def sum_list_distinct_conv_sum_set)
  show "unat (GetSigOpCountWithAncestors (entry pool t))
           = sum (txSigOps pool) (set (CalculateMemPoolAncestors pool t)) + txSigOps pool t"
    using ag t d by (simp add: aggregates_consistent_def sum_list_distinct_conv_sum_set)
qed

lemma package_sum_le:
  assumes c: "covered f v (D \<inter> S) whole"
    and w: "whole = sum f D + f it" and fin: "finite D"
    and d: "distinct K" and K: "set K = insert it (D - S)" and it: "it \<notin> D"
  shows "sum_list (map f K) \<le> v"
proof -
  have "sum_list (map f K) = sum f (set K)" using d by (simp add: sum_list_distinct_conv_sum_set)
  also have "\<dots> = f it + sum f (D - S)" using K it fin by simp
  also have "\<dots> \<le> v" using covered_rest[OF c w fin] by simp
  finally show ?thesis .
qed

lemma SortForBlock_sum:
  "distinct K \<Longrightarrow> sum_list (map (f :: txiter \<Rightarrow> nat) (SortForBlock pool K)) = sum_list (map f K)"
proof -
  assume d: "distinct K"
  let ?s = "SortForBlock pool K"
  have "distinct ?s" "set ?s = set K" using d by (simp_all add: SortForBlock_def)
  thus ?thesis using d by (simp add: sum_list_distinct_conv_sum_set)
qed

lemma unat_ucast_32_64: "unat (ucast (x :: 32 word) :: 64 word) = unat x"
  by transfer simp

lemma commit_below_limits:
  assumes wf: "ancestry_consistent (m_mempool ctx)" and ag: "aggregates_consistent (m_mempool ctx)"
    and bd: "aggregates_bounded ctx"
    and bl: "below_limits ctx B"
    and ec: "entry_covers (m_mempool ctx) B package"
    and it: "iter package \<in> set (mapTx_ancestor_score (m_mempool ctx))"
    and tp: "TestPackage ctx B (nSizeWithAncestors package) (nSigOpCountWithAncestors package)"
    and c: "commitPackage (m_mempool ctx) B L (packageAncestors (m_mempool ctx) B (iter package)) = (B', L')"
  shows "below_limits ctx B'"
proof -
  let ?pool = "m_mempool ctx" and ?it = "iter package"
  let ?anc = "CalculateMemPoolAncestors ?pool"
  let ?K = "packageAncestors ?pool B ?it"
  let ?sk = "SortForBlock ?pool ?K"
  let ?p = "nSizeWithAncestors package" and ?q = "nSigOpCountWithAncestors package"
  from wf it have w: "distinct (?anc ?it)" "?it \<notin> set (?anc ?it)"
    by (auto simp: ancestry_consistent_def)
  have K: "set ?K = insert ?it (set (?anc ?it) - set (inBlock B))" by (rule packageAncestors_set)
  have Kd: "distinct ?K" using w(1) by (rule packageAncestors_distinct)
  note as = aggregates_as_sums[OF wf ag it]
  from ec have cz: "covered (txSize ?pool) (unat ?p) (set (?anc ?it) \<inter> set (inBlock B))
                      (unat (GetSizeWithAncestors (entry ?pool ?it)))"
    and cs: "covered (txSigOps ?pool) (unat ?q) (set (?anc ?it) \<inter> set (inBlock B))
                      (unat (GetSigOpCountWithAncestors (entry ?pool ?it)))"
    by (simp_all add: entry_covers_def)
  have Sz: "sum_list (map (txSize ?pool) ?sk) \<le> unat ?p"
    using package_sum_le[OF cz as(1) _ Kd K w(2)] by (simp add: SortForBlock_sum[OF Kd])
  have Ss: "sum_list (map (txSigOps ?pool) ?sk) \<le> unat ?q"
    using package_sum_le[OF cs as(2) _ Kd K w(2)] by (simp add: SortForBlock_sum[OF Kd])
  from bd it have b: "unat (GetSizeWithAncestors (entry ?pool ?it)) < 2 ^ 63"
    "unat (GetSigOpCountWithAncestors (entry ?pool ?it)) + unat (MaxBlockSigOps ctx) \<le> 2 ^ 32"
    by (simp_all add: aggregates_bounded_def)
  have pz: "unat ?p < 2 ^ 63" using covered_le[OF cz] b(1) by simp
  have ps: "unat ?q + unat (MaxBlockSigOps ctx) \<le> 2 ^ 32" using covered_le[OF cs] b(2) by simp
  from bl have l: "unat (nBlockSize B) < unat (nBlockMaxSize B)"
    "unat (nBlockSigOps B) < unat (MaxBlockSigOps ctx)"
    by (simp_all add: below_limits_def)
  have mx: "unat (nBlockMaxSize B) < 2 ^ 32" using unsigned_less[of "nBlockMaxSize B"] by simp
  have nwz: "unat (nBlockSize B) + unat ?p < 2 ^ 64" using l(1) mx pz by simp
  have nws: "unat (nBlockSigOps B) + unat ?q < 2 ^ 32" using l(2) ps by simp
  have uc: "unat (ucast (nBlockMaxSize B) :: 64 word) = unat (nBlockMaxSize B)"
    by (rule unat_ucast_32_64)
  from tp have t1: "\<not> nBlockSize B + ?p \<ge> ucast (nBlockMaxSize B)"
    and t2: "\<not> nBlockSigOps B + ?q \<ge> MaxBlockSigOps ctx"
    by (auto simp: TestPackage_def split: if_splits)
  have z: "unat (nBlockSize B) + unat ?p < unat (nBlockMaxSize B)"
    using t1 nwz by (simp add: word_le_nat_alt uc unat_word_ariths)
  have g: "unat (nBlockSigOps B) + unat ?q < unat (MaxBlockSigOps ctx)"
    using t2 nws by (simp add: word_le_nat_alt unat_word_ariths)
  have B'z: "nBlockSize B' = nBlockSize B + sum_list (map (\<lambda>t. GetTxSize (entry ?pool t)) ?sk)"
    and B's: "nBlockSigOps B' = nBlockSigOps B + sum_list (map (\<lambda>t. GetSigOpCount (entry ?pool t)) ?sk)"
    and B'm: "nBlockMaxSize B' = nBlockMaxSize B"
    using commitPackage_B[OF c] by (simp_all add: addSortedEntries_fields)
  have ez: "txSize ?pool = (\<lambda>t. unat (GetTxSize (entry ?pool t)))"
    and es: "txSigOps ?pool = (\<lambda>t. unat (GetSigOpCount (entry ?pool t)))"
    by (rule ext, simp add: txSize_def, rule ext, simp add: txSigOps_def)
  have "unat (nBlockSize B') = unat (nBlockSize B) + sum_list (map (txSize ?pool) ?sk)"
    unfolding B'z ez using Sz[unfolded ez] nwz
    by (intro unat_plus_sum_list) simp
  moreover have "unat (nBlockSigOps B') = unat (nBlockSigOps B) + sum_list (map (txSigOps ?pool) ?sk)"
    unfolding B's es using Ss[unfolded es] nws
    by (intro unat_plus_sum_list) simp
  ultimately show ?thesis
    unfolding below_limits_def B'm using z g Sz Ss by simp
qed

lemma trackedFigures_covers:
  assumes "\<And>e. e \<in> set m \<Longrightarrow> entry_covers pool B e"
  shows "entry_covers pool B (trackedFigures pool m d)"
proof (cases "mod_find m d")
  case None
  then show ?thesis by (simp add: trackedFigures_def entry_covers_pool)
next
  case (Some e)
  then have "e \<in> set m" by (auto simp: mod_find_def find_Some_iff)
  then show ?thesis using assms Some by (simp add: trackedFigures_def)
qed

lemma entry_covers_update:
  assumes ec: "entry_covers pool B e"
    and wf: "ancestry_consistent pool" and ag: "aggregates_consistent pool"
    and d: "iter e \<in> set (mapTx_ancestor_score pool)"
    and cs: "distinct cs" "set cs \<subseteq> set (CalculateMemPoolAncestors pool (iter e)) - set (inBlock B)"
    and sub: "set (inBlock B) \<union> set cs \<subseteq> set (inBlock B')"
  shows "entry_covers pool B' (fold (update_for_parent_inclusion pool) cs e)"
proof -
  let ?D = "set (CalculateMemPoolAncestors pool (iter e))"
  let ?e' = "fold (update_for_parent_inclusion pool) cs e"
  note as = aggregates_as_sums[OF wf ag d]
  have fin: "finite ?D" by simp
  have mono: "?D \<inter> (set (inBlock B) \<union> set cs) \<subseteq> ?D \<inter> set (inBlock B')" using sub by auto
  have ez: "txSize pool = (\<lambda>t. unat (GetTxSize (entry pool t)))"
    and es: "txSigOps pool = (\<lambda>t. unat (GetSigOpCount (entry pool t)))"
    by (rule ext, simp add: txSize_def, rule ext, simp add: txSigOps_def)
  from ec have cz: "covered (txSize pool) (unat (nSizeWithAncestors e)) (?D \<inter> set (inBlock B))
                      (unat (GetSizeWithAncestors (entry pool (iter e))))"
    and cg: "covered (txSigOps pool) (unat (nSigOpCountWithAncestors e)) (?D \<inter> set (inBlock B))
                      (unat (GetSigOpCountWithAncestors (entry pool (iter e))))"
    by (simp_all add: entry_covers_def)
  note sz = covered_subtract[OF cz as(1) fin cs]
  note sg = covered_subtract[OF cg as(2) fin cs]
  have uz: "unat (nSizeWithAncestors ?e')
              = unat (nSizeWithAncestors e) - sum_list (map (txSize pool) cs)"
    unfolding fold_update_figures ez using sz(1)[unfolded ez] by (rule unat_minus_sum_list)
  have ug: "unat (nSigOpCountWithAncestors ?e')
              = unat (nSigOpCountWithAncestors e) - sum_list (map (txSigOps pool) cs)"
    unfolding fold_update_figures es using sg(1)[unfolded es] by (rule unat_minus_sum_list)
  show ?thesis
    unfolding entry_covers_def uz ug fold_update_figures(1)
    using covered_mono[OF sz(2) mono] covered_mono[OF sg(2) mono] by simp
qed

lemma commit_tracker_covers:
  assumes wf: "ancestry_consistent pool" and ag: "aggregates_consistent pool"
    and dm: "distinct (map iter (mapModifiedTx L))"
    and cv: "tracker_covers pool B L"
    and it: "it \<in> set (mapTx_ancestor_score pool)" "it \<notin> set (inBlock B)"
    and c: "commitPackage pool B L (packageAncestors pool B it) = (B', L')"
  shows "tracker_covers pool B' L'"
  unfolding tracker_covers_def
proof
  fix e' assume e': "e' \<in> set (mapModifiedTx L')"
  let ?anc = "CalculateMemPoolAncestors pool"
  let ?K = "packageAncestors pool B it"
  let ?d = "iter e'"
  let ?cps = "committedParents pool ?K ?d"
  let ?m1 = "filter (\<lambda>e. iter e \<notin> set ?K) (mapModifiedTx L)"
  from wf it(1) have w: "distinct (?anc it)" by (auto simp: ancestry_consistent_def)
  have K: "set ?K = insert it (set (?anc it) - set (inBlock B))" by (rule packageAncestors_set)
  have Kd: "distinct ?K" using w by (rule packageAncestors_distinct)
  have KB: "set ?K \<inter> set (inBlock B) = {}" using K it(2) by auto
  have inB: "set (inBlock B') = set ?K \<union> set (inBlock B)" using commitPackage_sets(1)[OF c] .
  note cl = commitPackage_L[OF c]
  have d1: "distinct (map iter ?m1)" using dm by (simp add: distinct_map_filter)
  note ue = UpdatePackagesForAdded_entries[OF d1, where pool = pool and K = ?K]
  from e' have mem: "e' \<in> set (snd (UpdatePackagesForAdded pool ?K ?m1))" by (simp add: cl(1))
  have cvm: "\<And>e. e \<in> set ?m1 \<Longrightarrow> entry_covers pool B e"
    using cv by (simp add: tracker_covers_def)
  show "entry_covers pool B' e'"
  proof (cases "?d \<notin> set ?K \<and> ?cps \<noteq> []")
    case True
    let ?e0 = "trackedFigures pool ?m1 ?d"
    have e'eq: "e' = fold (update_for_parent_inclusion pool) ?cps ?e0"
      using ue(2)[OF mem] True by simp
    have i0: "iter ?e0 = ?d" using d1 by simp
    have c0: "entry_covers pool B ?e0" using cvm by (rule trackedFigures_covers)
    from True obtain k where "k \<in> set ?cps" by (cases ?cps) auto
    then have dT: "?d \<in> set (mapTx_ancestor_score pool)" by (simp add: committedParents_mem)
    have cd: "distinct ?cps" using Kd by (simp add: committedParents_def)
    have cs: "set ?cps \<subseteq> set (?anc ?d) - set (inBlock B)"
      using KB by (auto simp: committedParents_mem)
    have sub: "set (inBlock B) \<union> set ?cps \<subseteq> set (inBlock B')"
      using inB by (auto simp: committedParents_mem)
    have "entry_covers pool B' (fold (update_for_parent_inclusion pool) ?cps ?e0)"
      using c0 wf ag
    proof (rule entry_covers_update)
      show "iter ?e0 \<in> set (mapTx_ancestor_score pool)" using dT i0 by simp
      show "distinct ?cps" by (rule cd)
      show "set ?cps \<subseteq> set (?anc (iter ?e0)) - set (inBlock B)" using cs i0 by simp
      show "set (inBlock B) \<union> set ?cps \<subseteq> set (inBlock B')" by (rule sub)
    qed
    then show ?thesis using e'eq by simp
  next
    case False
    then have "e' \<in> set ?m1" using ue(2)[OF mem] by (simp split: if_splits)
    then have "entry_covers pool B e'" by (rule cvm)
    then show ?thesis by (rule entry_covers_mono) (use inB in auto)
  qed
qed

lemma initialLoop_covers:
  assumes wf: "ancestry_consistent (m_mempool ctx)" and ag: "aggregates_consistent (m_mempool ctx)"
    and di: "distinct (inBlock B)"
  shows "tracker_covers (m_mempool ctx) B (initialLoop ctx B)"
  unfolding tracker_covers_def
proof
  let ?pool = "m_mempool ctx"
  let ?anc = "CalculateMemPoolAncestors ?pool"
  fix e' assume e': "e' \<in> set (mapModifiedTx (initialLoop ctx B))"
  let ?d = "iter e'"
  let ?cps = "committedParents ?pool (inBlock B) ?d"
  let ?e0 = "trackedFigures ?pool [] ?d"
  have d: "distinct (map iter ([] :: indexed_modified_transaction_set))" by simp
  note ue = UpdatePackagesForAdded_entries[OF d, where pool = ?pool and K = "inBlock B"]
  from e' have mem: "e' \<in> set (snd (UpdatePackagesForAdded ?pool (inBlock B) []))"
    by (simp add: initialLoop_fields)
  have T: "?d \<notin> set (inBlock B) \<and> ?cps \<noteq> []"
    using ue(2)[OF mem] by (simp split: if_splits)
  then have e'eq: "e' = fold (update_for_parent_inclusion ?pool) ?cps ?e0"
    using ue(2)[OF mem] by simp
  have i0: "iter ?e0 = ?d" by simp
  from T obtain k where "k \<in> set ?cps" by (cases ?cps) auto
  then have dT: "?d \<in> set (mapTx_ancestor_score ?pool)" by (simp add: committedParents_mem)
  have c0: "entry_covers ?pool (B\<lparr>inBlock := []\<rparr>) ?e0"
    by (rule trackedFigures_covers) simp
  have "entry_covers ?pool B (fold (update_for_parent_inclusion ?pool) ?cps ?e0)"
    using c0 wf ag
  proof (rule entry_covers_update)
    show "iter ?e0 \<in> set (mapTx_ancestor_score ?pool)" using dT i0 by simp
    show "distinct ?cps" using di by (simp add: committedParents_def)
    show "set ?cps \<subseteq> set (?anc (iter ?e0)) - set (inBlock (B\<lparr>inBlock := []\<rparr>))"
      by (auto simp: committedParents_mem i0)
    show "set (inBlock (B\<lparr>inBlock := []\<rparr>)) \<union> set ?cps \<subseteq> set (inBlock B)"
      by (auto simp: committedParents_mem)
  qed
  then show "entry_covers ?pool B e'" using e'eq by simp
qed

lemma SelectCandidate_covers:
  assumes "SelectCandidate pool mi_now m = Some (package, fUsingModified, mi')"
    and "\<And>e. e \<in> set m \<Longrightarrow> entry_covers pool B e"
  shows "entry_covers pool B package"
proof (cases fUsingModified)
  case True
  then have "package \<in> set m" using SelectCandidate_handle(3)[OF assms(1)] by auto
  then show ?thesis by (rule assms(2))
next
  case False
  then show ?thesis using SelectCandidate_handle(4)[OF assms(1)] by (simp add: entry_covers_pool)
qed

lemma loop_body_capacity:
  assumes wf: "ancestry_consistent (m_mempool ctx)" and ag: "aggregates_consistent (m_mempool ctx)"
    and bd: "aggregates_bounded ctx"
    and inv: "capacity_invariant ctx B0 B L"
    and c: "loop_body ctx B L = Continue B' L'"
  shows "capacity_invariant ctx B0 B' L'"
proof -
  let ?pool = "m_mempool ctx"
  from inv have bc: "block_consistent ?pool B" and tc: "tracker_consistent ?pool B L"
    and cv: "tracker_covers ?pool B L" and bl: "below_limits ctx B"
    and mx: "nBlockMaxSize B = nBlockMaxSize B0"
    by (simp_all add: capacity_invariant_def)
  note cons = loop_body_consistent[OF wf bc tc c]
  have "tracker_covers ?pool B' L' \<and> below_limits ctx B' \<and> nBlockMaxSize B' = nBlockMaxSize B"
    using c
  proof (cases rule: loop_body_ContinueE)
    case skip
    then show ?thesis using cv bl by (simp add: tracker_covers_def)
  next
    case (fail package fUsingModified mi')
    have "set (mapModifiedTx L') \<subseteq> set (mapModifiedTx L)"
      using fail(5) packageFailed_tracker(3)[of "L\<lparr>mi := mi'\<rparr>" fUsingModified "iter package"]
      by simp
    then have "tracker_covers ?pool B L'" using cv unfolding tracker_covers_def by blast
    then show ?thesis using fail(4) bl by simp
  next
    case (commit package fUsingModified mi')
    note h = SelectCandidate_handle[OF commit(1)]
    have itT: "iter package \<in> set (mapTx_ancestor_score ?pool)"
      using h(1) tracker_consistentD(1,2)[OF tc] by blast
    have ec: "entry_covers ?pool B package"
      using commit(1) by (rule SelectCandidate_covers) (use cv in \<open>simp add: tracker_covers_def\<close>)
    have 1: "below_limits ctx B'"
      by (rule commit_below_limits[OF wf ag bd bl ec itT commit(5) commit(7)])
    have cv0: "tracker_covers ?pool B (L\<lparr>mi := mi'\<rparr>)" using cv by (simp add: tracker_covers_def)
    have dm: "distinct (map iter (mapModifiedTx (L\<lparr>mi := mi'\<rparr>)))"
      using tracker_consistentD(3)[OF tc] by simp
    have 2: "tracker_covers ?pool B' L'"
      by (rule commit_tracker_covers[OF wf ag dm cv0 itT commit(3) commit(7)])
    have 3: "nBlockMaxSize B' = nBlockMaxSize B"
      using commitPackage_B[OF commit(7)] by (simp add: addSortedEntries_fields)
    show ?thesis using 1 2 3 by simp
  qed
  then show ?thesis using cons mx by (simp add: capacity_invariant_def)
qed

lemma initialLoop_capacity:
  assumes wf: "ancestry_consistent (m_mempool ctx)" and ag: "aggregates_consistent (m_mempool ctx)"
    and bc: "block_consistent (m_mempool ctx) B" and di: "distinct (inBlock B)"
    and bl: "below_limits ctx B"
  shows "capacity_invariant ctx B B (initialLoop ctx B)"
  unfolding capacity_invariant_def
  using bc bl initialLoop_consistent[of ctx B] initialLoop_covers[OF wf ag di] by simp

lemma addPackageTxs_capacity:
  assumes wf: "ancestry_consistent (m_mempool ctx)" and ag: "aggregates_consistent (m_mempool ctx)"
    and bd: "aggregates_bounded ctx"
    and bc: "block_consistent (m_mempool ctx) B" and di: "distinct (inBlock B)"
    and bl: "below_limits ctx B"
  shows "\<exists>r B' L'. addPackageTxs ctx B = Returned r B' L' \<and> below_limits ctx B' \<and>
           nBlockMaxSize B' = nBlockMaxSize B"
proof -
  let ?P = "capacity_invariant ctx B"
  note init = initialLoop_capacity[OF wf ag bc di bl]
  have step: "?P B2 L2" if "?P B1 L1" "loop_body ctx B1 L1 = Continue B2 L2" for B1 L1 B2 L2
    using loop_body_capacity[OF wf ag bd that] .
  have "\<exists>r B' L'. addPackageTxs_loop ctx B (initialLoop ctx B) = Returned r B' L'"
  proof (rule addPackageTxs_loop_returns[where P = ?P])
    show "?P B (initialLoop ctx B)" by (rule init)
    show "\<And>B1 L1. ?P B1 L1 \<Longrightarrow> loop_body ctx B1 L1 \<noteq> AssertionFailure"
      using loop_body_no_assertion_failure by (simp add: capacity_invariant_def)
    show "\<And>B1 L1 B2 L2. ?P B1 L1 \<Longrightarrow> loop_body ctx B1 L1 = Continue B2 L2 \<Longrightarrow> ?P B2 L2"
      by (rule step)
  qed
  then obtain r B' L' where ret: "addPackageTxs_loop ctx B (initialLoop ctx B) = Returned r B' L'"
    by blast
  have "\<exists>L2. ?P B' L2 \<and> loop_body ctx B' L2 = Exit r B' L'"
    using ret init by (rule addPackageTxs_loop_invariant[where P = ?P]) (rule step)
  then obtain L2 where "?P B' L2" by blast
  then show ?thesis using ret by (simp add: addPackageTxs_def capacity_invariant_def)
qed

lemma TestPackage_arith:
  assumes "unat (nBlockSize B) + unat p < 2 ^ 64" and "unat (nBlockSigOps B) + unat q < 2 ^ 32"
  shows "\<not> TestPackage ctx B p q \<longleftrightarrow>
           unat (nBlockSize B) + unat p \<ge> unat (nBlockMaxSize B) \<or>
           unat (nBlockSigOps B) + unat q \<ge> unat (MaxBlockSigOps ctx)"
  using assms
  by (simp add: TestPackage_def word_le_nat_alt unat_ucast_32_64 unat_word_ariths)

lemma example_pool_aggregates: "aggregates_consistent (m_mempool example_ctx)"
  by (simp add: aggregates_consistent_def example_ctx_def example_pool_def mkEntry_def
      txSize_def txSigOps_def)

lemma example_pool_bounded: "aggregates_bounded example_ctx"
  by (simp add: aggregates_bounded_def example_ctx_def example_miner_def example_pool_def mkEntry_def)

lemma example_block_below: "below_limits example_ctx example_block"
  by (simp add: below_limits_def ex_block example_ctx_def example_miner_def)

lemma prepareBlock_inBlock: "inBlock (prepareBlock bc options) = []"
proof -
  have a: "inBlock (addCommitments qcs B) = inBlock B" for qcs B
    by (induction qcs arbitrary: B) simp_all
  show ?thesis by (simp add: prepareBlock_def Let_def a resetBlock_def)
qed

lemma ex_run_bc:
  "addPackageTxs (miner (example_bc\<lparr>miner := example_ctx\<rparr>))
     (prepareBlock (example_bc\<lparr>miner := example_ctx\<rparr>) example_options) =
  Returned LoopConditionFalse
   \<lparr>nBlockMaxSize = 1999000, blockMinFeeRate = 1, nBlockSize = 1870, nBlockTx = 5, nBlockSigOps = 104,
    nFees = 2040, nSpecialTxFees = 0, inBlock = [2, 3, 1, 0],
    vtx = [TxNull, TxQuorumCommitment 300, TxMempool 0, TxMempool 1, TxMempool 3, TxMempool 2],
    vTxFees = [-1, 0, 500, 1000, 240, 300], vSpecialTxFees = [-1, 0, 0, 0, 0, 0],
    vTxSigOps = [-1, 0, 1, 1, 1, 1]\<rparr>
   \<lparr>mapModifiedTx = [], failedTx = [], mi = [], nConsecutiveFailed = 0, nPackagesSelected = 4,
    nDescendantsUpdated = 3\<rparr>"
  using ex_run by (simp add: example_block_def)

lemma ex_template:
  "CreateNewBlock (example_bc\<lparr>miner := example_ctx\<rparr>) example_options [9] =
     Inr \<lparr>block_vtx = [TxCoinbase \<lparr>vout = [\<lparr>nValue = 5688, scriptPubKey = [9]\<rparr>,
                                              \<lparr>nValue = 1000, scriptPubKey = [8]\<rparr>,
                                              \<lparr>nValue = 352, scriptPubKey = [7]\<rparr>]\<rparr>,
                       TxQuorumCommitment 300, TxMempool 0, TxMempool 1, TxMempool 3, TxMempool 2],
          block_txoutFortune = \<lparr>nValue = 352, scriptPubKey = [7]\<rparr>,
          block_hashPrevBlock = 2 ^ 65 + 5,
          template_vTxFees = [- 2040, 0, 500, 1000, 240, 300],
          template_vSpecialTxFees = [0, 0, 0, 0, 0, 0],
          template_vTxSigOps = [1, 0, 1, 1, 1, 1],
          voutSmartnodePayments = [\<lparr>nValue = 1000, scriptPubKey = [8]\<rparr>],
          voutSuperblockPayments = [], nPrevBits = 0,
          nLastBlockTx = 5, nLastBlockSize = 1870, nLastBlockSigOps = 104\<rparr>"
  unfolding CreateNewBlock_def ex_run_bc
  by (simp add: example_defs example_ctx_def ChainActive_Tip_def composeCoinbase_def coinbasePayload_def FillBlockPayments_def addSubPayment_def
  FillFortunePayment_def GetFortuneAddressByHeight_def ChainActive_Height_def ChainActive_at_def
  luckyHeightOf_def hashXor_def GetUint64_def getFortunePaymentAmount_def INT_MAX_def
  signed_divide_int_def IsValidDestination_def swapOutputs_def Let_def DEFAULT_FORTUNE_ADDRESS_def)

section \<open>The order of the candidates and the fee-rate cutoff\<close>

lemma mod_place_sorted:
  "tracker_sorted m \<Longrightarrow> tracker_sorted (mod_place e m)"
  unfolding tracker_sorted_def
proof (induction m)
  case Nil
  then show ?case by simp
next
  case (Cons x xs)
  show ?case
  proof (cases "CompareTxMemPoolEntryByAncestorFee e x")
    case True
    then have "ancestorFeeRate x \<le> ancestorFeeRate e"
      by (simp add: CompareTxMemPoolEntryByAncestorFee_def)
    moreover have "\<forall>y \<in> set xs. ancestorFeeRate y \<le> ancestorFeeRate x" using Cons.prems by simp
    ultimately have "\<forall>y \<in> set (x # xs). ancestorFeeRate y \<le> ancestorFeeRate e" by auto
    then show ?thesis using True Cons.prems by simp
  next
    case False
    then have "ancestorFeeRate e \<le> ancestorFeeRate x"
      by (simp add: CompareTxMemPoolEntryByAncestorFee_def)
    then show ?thesis using False Cons by (auto simp: mod_place_set)
  qed
qed

lemma mod_insert_sorted: "tracker_sorted m \<Longrightarrow> tracker_sorted (mod_insert m e)"
  by (simp add: mod_insert_def mod_place_sorted)

lemma mod_erase_sorted: "tracker_sorted m \<Longrightarrow> tracker_sorted (mod_erase m t)"
  by (simp add: tracker_sorted_def mod_erase_def sorted_wrt_filter)

lemma tracker_sorted_filter: "tracker_sorted m \<Longrightarrow> tracker_sorted (filter P m)"
  by (simp add: tracker_sorted_def sorted_wrt_filter)

lemma tracker_sorted_tl: "tracker_sorted m \<Longrightarrow> tracker_sorted (tl m)"
  by (cases m) (simp_all add: tracker_sorted_def)

lemma tracker_sorted_hd:
  "tracker_sorted m \<Longrightarrow> e \<in> set m \<Longrightarrow> ancestorFeeRate e \<le> ancestorFeeRate (hd m)"
  by (cases m) (auto simp: tracker_sorted_def)

lemma tracker_sorted_last:
  "tracker_sorted m \<Longrightarrow> e \<in> set m \<Longrightarrow> ancestorFeeRate (last m) \<le> ancestorFeeRate e"
  unfolding tracker_sorted_def
proof (induction m)
  case Nil
  then show ?case by simp
next
  case (Cons x xs)
  show ?case
  proof (cases "xs = []")
    case True
    then show ?thesis using Cons.prems by simp
  next
    case False
    then have "last xs \<in> set xs" by simp
    then have "ancestorFeeRate (last xs) \<le> ancestorFeeRate x" using Cons.prems(1) by simp
    then show ?thesis using Cons False by auto
  qed
qed

lemma mod_modify_sorted:
  assumes "tracker_sorted m"
  shows "tracker_sorted (mod_modify m t f)"
proof (cases "dropWhile (\<lambda>e. iter e \<noteq> t) m")
  case Nil
  then show ?thesis using assms unfolding mod_modify_def Let_def Nil by simp
next
  case (Cons e rear)
  let ?front = "takeWhile (\<lambda>e. iter e \<noteq> t) m"
  have m: "m = ?front @ e # rear" using Cons takeWhile_dropWhile_id[of "\<lambda>e. iter e \<noteq> t" m] by simp
  let ?R = "\<lambda>a b. ancestorFeeRate b \<le> ancestorFeeRate a"
  from assms m have s: "sorted_wrt ?R (?front @ e # rear)" by (simp add: tracker_sorted_def)
  then have sf: "sorted_wrt ?R ?front" and sr: "sorted_wrt ?R rear"
    and fr: "\<forall>a \<in> set ?front. \<forall>b \<in> set rear. ?R a b"
    by (auto simp: sorted_wrt_append)
  show ?thesis
  proof (cases "mod_in_place ?front (f e) rear")
    case True
    have a: "\<forall>a \<in> set ?front. ancestorFeeRate (f e) \<le> ancestorFeeRate a"
    proof (cases "?front = []")
      case True
      then show ?thesis by simp
    next
      case False
      then have l: "ancestorFeeRate (f e) \<le> ancestorFeeRate (last ?front)"
        using True by (simp add: mod_in_place_def CompareTxMemPoolEntryByAncestorFee_def)
      have "\<forall>a \<in> set ?front. ancestorFeeRate (last ?front) \<le> ancestorFeeRate a"
        using sf by (simp add: tracker_sorted_def tracker_sorted_last)
      then show ?thesis using l by auto
    qed
    have b: "\<forall>b \<in> set rear. ancestorFeeRate b \<le> ancestorFeeRate (f e)"
    proof (cases "rear = []")
      case True
      then show ?thesis by simp
    next
      case False
      then have h: "ancestorFeeRate (hd rear) \<le> ancestorFeeRate (f e)"
        using \<open>mod_in_place ?front (f e) rear\<close>
        by (simp add: mod_in_place_def CompareTxMemPoolEntryByAncestorFee_def)
      have "\<forall>b \<in> set rear. ancestorFeeRate b \<le> ancestorFeeRate (hd rear)"
        using sr by (cases rear) auto
      then show ?thesis using h by auto
    qed
    have "sorted_wrt ?R (?front @ f e # rear)"
      using sf sr fr a b by (simp add: sorted_wrt_append)
    then show ?thesis unfolding mod_modify_def Let_def Cons using True
      by (simp add: tracker_sorted_def)
  next
    case False
    have "sorted_wrt ?R (?front @ rear)" using sf sr fr by (simp add: sorted_wrt_append)
    then have "tracker_sorted (mod_place (f e) (?front @ rear))"
      by (intro mod_place_sorted) (simp add: tracker_sorted_def)
    then show ?thesis unfolding mod_modify_def Let_def Cons using False by simp
  qed
qed

lemma adjustDescendant_sorted:
  "tracker_sorted m \<Longrightarrow> tracker_sorted (adjustDescendant pool it desc m)"
  by (simp add: adjustDescendant_def Let_def mod_insert_sorted mod_modify_sorted
      split: option.splits)

lemma updateDescendants_sorted:
  "tracker_sorted m \<Longrightarrow> tracker_sorted (snd (updateDescendants pool aa it ds (n, m)))"
  by (induction ds arbitrary: n m) (simp_all add: adjustDescendant_sorted)

lemma updatePackages_sorted:
  "tracker_sorted (snd acc) \<Longrightarrow> tracker_sorted (snd (updatePackages pool aa its acc))"
proof (induction its arbitrary: acc)
  case Nil
  then show ?case by simp
next
  case (Cons it its)
  obtain n m where acc: "acc = (n, m)" by (cases acc)
  have "tracker_sorted (snd (updateDescendants pool aa it (CalculateDescendants pool it) (n, m)))"
    using Cons.prems acc by (intro updateDescendants_sorted) simp
  then show ?case using Cons.IH acc by simp
qed

lemma UpdatePackagesForAdded_sorted:
  "tracker_sorted m \<Longrightarrow> tracker_sorted (snd (UpdatePackagesForAdded pool K m))"
  unfolding UpdatePackagesForAdded_def by (rule updatePackages_sorted) simp

lemma index_sorted_tl: "index_sorted pool ts \<Longrightarrow> index_sorted pool (tl ts)"
  by (cases ts) (simp_all add: index_sorted_def)

lemma SelectCandidate_mi:
  assumes "SelectCandidate pool mi_now m = Some (package, fUsingModified, mi')"
  shows "mi' = mi_now \<or> mi' = tl mi_now"
  using assms by (auto simp: SelectCandidate_def split: list.splits if_splits)

lemma SelectCandidate_best:
  assumes sel: "SelectCandidate pool mi_now m = Some (package, fUsingModified, mi')"
    and sm: "tracker_sorted m" and si: "index_sorted pool mi_now"
  shows "\<forall>e \<in> set m. ancestorFeeRate e \<le> ancestorFeeRate package"
    and "\<forall>t \<in> set mi'. poolFeeRate pool t \<le> ancestorFeeRate package"
proof -
  have hm: "\<And>e. e \<in> set m \<Longrightarrow> ancestorFeeRate e \<le> ancestorFeeRate (hd m)"
    using sm by (rule tracker_sorted_hd)
  have hi: "\<And>t. t \<in> set mi_now \<Longrightarrow> poolFeeRate pool t \<le> poolFeeRate pool (hd mi_now)"
    using si by (cases mi_now) (auto simp: index_sorted_def)
  show "\<forall>e \<in> set m. ancestorFeeRate e \<le> ancestorFeeRate package"
  proof
    fix e assume e: "e \<in> set m"
    then have m: "m \<noteq> []" by auto
    show "ancestorFeeRate e \<le> ancestorFeeRate package"
    proof (cases fUsingModified)
      case True
      then show ?thesis using SelectCandidate_handle(3)[OF sel] hm[OF e] by simp
    next
      case False
      then have "\<not> CompareTxMemPoolEntryByAncestorFee (hd m) package"
        using sel m by (auto simp: SelectCandidate_def split: list.splits if_splits)
      then have "ancestorFeeRate (hd m) \<le> ancestorFeeRate package"
        by (simp add: CompareTxMemPoolEntryByAncestorFee_def)
      then show ?thesis using hm[OF e] by simp
    qed
  qed
  show "\<forall>t \<in> set mi'. poolFeeRate pool t \<le> ancestorFeeRate package"
  proof
    fix t assume t: "t \<in> set mi'"
    show "poolFeeRate pool t \<le> ancestorFeeRate package"
    proof (cases fUsingModified)
      case True
      then have "mi' = mi_now" "mi_now \<noteq> []"
        "CompareTxMemPoolEntryByAncestorFee package (CTxMemPoolModifiedEntry_of pool (hd mi_now))"
        using sel t by (auto simp: SelectCandidate_def split: list.splits if_splits)
      then have "poolFeeRate pool (hd mi_now) \<le> ancestorFeeRate package" "t \<in> set mi_now"
        using t by (simp_all add: CompareTxMemPoolEntryByAncestorFee_def ancestorFeeRate_of_pool)
      then show ?thesis using hi[of t] by simp
    next
      case False
      note h = SelectCandidate_handle(4)[OF sel False]
      then have "t \<in> set mi_now" using t set_tl_subset[of mi_now] by auto
      then show ?thesis using hi[of t] h by (simp add: ancestorFeeRate_of_pool)
    qed
  qed
qed

lemma entry_covers_positive:
  assumes ec: "entry_covers pool B e"
    and wf: "ancestry_consistent pool" and ag: "aggregates_consistent pool"
    and sp: "sizes_positive pool" and d: "iter e \<in> set (mapTx_ancestor_score pool)"
  shows "0 < unat (nSizeWithAncestors e)"
proof -
  let ?D = "set (CalculateMemPoolAncestors pool (iter e))"
  note as = aggregates_as_sums[OF wf ag d]
  from ec have cz: "covered (txSize pool) (unat (nSizeWithAncestors e)) (?D \<inter> set (inBlock B))
                      (unat (GetSizeWithAncestors (entry pool (iter e))))"
    by (simp add: entry_covers_def)
  have "sum (txSize pool) (?D - set (inBlock B)) + txSize pool (iter e)
          \<le> unat (nSizeWithAncestors e)"
    by (rule covered_rest[OF cz as(1)]) simp
  moreover have "0 < txSize pool (iter e)" using sp d by (simp add: sizes_positive_def)
  ultimately show ?thesis by linarith
qed

lemma rate_less_iff:
  assumes "0 < (n :: nat)"
  shows "(of_int a / of_nat n :: rat) < of_int r \<longleftrightarrow> a < r * int n"
proof -
  have "(of_int a / of_nat n :: rat) < of_int r \<longleftrightarrow> (of_int a :: rat) < of_int r * of_nat n"
    using assms by (simp add: pos_divide_less_eq)
  also have "\<dots> \<longleftrightarrow> (of_int a :: rat) < of_int (r * int n)" by simp
  also have "\<dots> \<longleftrightarrow> a < r * int n" by (rule of_int_less_iff)
  finally show ?thesis .
qed

lemma rate_below_cutoff:
  assumes "0 < unat (nSizeWithAncestors e)"
    and "nModFeesWithAncestors e < CFeeRate_GetFee r (nSizeWithAncestors e)"
  shows "ancestorFeeRate e < of_int r"
  unfolding ancestorFeeRate_def rate_less_iff[OF assms(1)]
  using assms(2) unfolding CFeeRate_GetFee_def .

lemma rate_above_cutoff:
  assumes "0 < unat (nSizeWithAncestors e)"
    and "\<not> nModFeesWithAncestors e < CFeeRate_GetFee r (nSizeWithAncestors e)"
  shows "of_int r \<le> ancestorFeeRate e"
proof -
  have "\<not> ancestorFeeRate e < of_int r"
    unfolding ancestorFeeRate_def rate_less_iff[OF assms(1)]
    using assms(2) unfolding CFeeRate_GetFee_def .
  then show ?thesis by simp
qed

lemma loop_body_cutoffE:
  assumes "loop_body ctx B L = Exit FeeRateCutoff B' L'"
  obtains package fUsingModified mi' where
    "SelectCandidate (m_mempool ctx) (mi L) (mapModifiedTx L) = Some (package, fUsingModified, mi')"
    "\<not> (mi L \<noteq> [] \<and> SkipMapTxEntry B (hd (mi L)) (mapModifiedTx L) (failedTx L))"
    "iter package \<notin> set (inBlock B)"
    "nModFeesWithAncestors package
       < CFeeRate_GetFee (blockMinFeeRate B) (nSizeWithAncestors package)"
    "B' = B" "L' = L\<lparr>mi := mi'\<rparr>"
proof -
  from assms have ns: "\<not> (mi L \<noteq> [] \<and> SkipMapTxEntry B (hd (mi L)) (mapModifiedTx L) (failedTx L))"
    by (auto simp: loop_body_def split: if_splits)
  with assms obtain package fUsingModified mi' where
    sel: "SelectCandidate (m_mempool ctx) (mi L) (mapModifiedTx L) = Some (package, fUsingModified, mi')"
    and cp: "considerPackage ctx B (L\<lparr>mi := mi'\<rparr>) package fUsingModified = Exit FeeRateCutoff B' L'"
    by (auto simp: loop_body_def split: if_splits option.splits)
  from cp have nin: "iter package \<notin> set (inBlock B)"
    by (auto simp: considerPackage_def Let_def split: if_splits)
  from cp nin have fee: "nModFeesWithAncestors package
       < CFeeRate_GetFee (blockMinFeeRate B) (nSizeWithAncestors package)"
    by (auto simp: considerPackage_def Let_def split: if_splits prod.splits)
  from cp nin fee have "B' = B" "L' = L\<lparr>mi := mi'\<rparr>"
    by (simp_all add: considerPackage_def Let_def)
  then show ?thesis using that[OF sel ns nin fee] by simp
qed

lemma loop_body_cutoff_invariant:
  assumes wf: "ancestry_consistent (m_mempool ctx)" and ag: "aggregates_consistent (m_mempool ctx)"
    and inv: "cutoff_invariant ctx B0 B L"
    and c: "loop_body ctx B L = Continue B' L'"
  shows "cutoff_invariant ctx B0 B' L'"
proof -
  let ?pool = "m_mempool ctx"
  from inv have bc: "block_consistent ?pool B" and tc: "tracker_consistent ?pool B L"
    and cv: "tracker_covers ?pool B L" and sm: "tracker_sorted (mapModifiedTx L)"
    and si: "index_sorted ?pool (mi L)" and mr: "blockMinFeeRate B = blockMinFeeRate B0"
    by (simp_all add: cutoff_invariant_def)
  note cons = loop_body_consistent[OF wf bc tc c]
  have "tracker_covers ?pool B' L' \<and> tracker_sorted (mapModifiedTx L') \<and>
        index_sorted ?pool (mi L') \<and> blockMinFeeRate B' = blockMinFeeRate B"
    using c
  proof (cases rule: loop_body_ContinueE)
    case skip
    then show ?thesis using cv sm si by (simp add: tracker_covers_def index_sorted_tl)
  next
    case (fail package fUsingModified mi')
    have sub: "set (mapModifiedTx L') \<subseteq> set (mapModifiedTx L)"
      using fail(5) packageFailed_tracker(3)[of "L\<lparr>mi := mi'\<rparr>" fUsingModified "iter package"]
      by simp
    have 1: "tracker_covers ?pool B L'" using cv sub unfolding tracker_covers_def by blast
    have 2: "tracker_sorted (mapModifiedTx L')"
      using fail(5) sm packageFailed_tracker(1,2)[of fUsingModified "L\<lparr>mi := mi'\<rparr>" "iter package"]
      by (cases fUsingModified) (simp_all add: tracker_sorted_tl)
    have 3: "index_sorted ?pool (mi L')"
      using SelectCandidate_mi[OF fail(1)] fail(7) si by (auto simp: index_sorted_tl)
    show ?thesis using 1 2 3 fail(4) by simp
  next
    case (commit package fUsingModified mi')
    note h = SelectCandidate_handle[OF commit(1)]
    have itT: "iter package \<in> set (mapTx_ancestor_score ?pool)"
      using h(1) tracker_consistentD(1,2)[OF tc] by blast
    have cv0: "tracker_covers ?pool B (L\<lparr>mi := mi'\<rparr>)" using cv by (simp add: tracker_covers_def)
    have dm: "distinct (map iter (mapModifiedTx (L\<lparr>mi := mi'\<rparr>)))"
      using tracker_consistentD(3)[OF tc] by simp
    have 1: "tracker_covers ?pool B' L'"
      by (rule commit_tracker_covers[OF wf ag dm cv0 itT commit(3) commit(7)])
    note cl = commitPackage_L[OF commit(7)]
    have 2: "tracker_sorted (mapModifiedTx L')"
      unfolding cl(1) using sm by (intro UpdatePackagesForAdded_sorted tracker_sorted_filter) simp
    have 3: "index_sorted ?pool (mi L')"
      using SelectCandidate_mi[OF commit(1)] cl(2) si by (auto simp: index_sorted_tl)
    have 4: "blockMinFeeRate B' = blockMinFeeRate B"
      using commitPackage_B[OF commit(7)] by (simp add: addSortedEntries_fields)
    show ?thesis using 1 2 3 4 by simp
  qed
  then show ?thesis using cons mr by (simp add: cutoff_invariant_def)
qed

lemma initialLoop_cutoff_invariant:
  assumes wf: "ancestry_consistent (m_mempool ctx)" and ag: "aggregates_consistent (m_mempool ctx)"
    and si: "index_sorted (m_mempool ctx) (mapTx_ancestor_score (m_mempool ctx))"
    and bc: "block_consistent (m_mempool ctx) B" and di: "distinct (inBlock B)"
  shows "cutoff_invariant ctx B B (initialLoop ctx B)"
proof -
  have "tracker_sorted (mapModifiedTx (initialLoop ctx B))"
    unfolding initialLoop_fields
    by (rule UpdatePackagesForAdded_sorted) (simp add: tracker_sorted_def)
  then show ?thesis
    unfolding cutoff_invariant_def
    using bc si initialLoop_consistent[of ctx B] initialLoop_covers[OF wf ag di]
    by (simp add: initialLoop_fields)
qed

lemma loop_reaches_cutoff_invariant:
  assumes wf: "ancestry_consistent (m_mempool ctx)" and ag: "aggregates_consistent (m_mempool ctx)"
    and r: "loop_reaches ctx B L B' L'" and inv: "cutoff_invariant ctx B0 B L"
  shows "cutoff_invariant ctx B0 B' L'"
  using r inv
proof (induction rule: loop_reaches.induct)
  case loop_reaches_start
  then show ?case by simp
next
  case (loop_reaches_pass B1 L1 B2 L2)
  then have "cutoff_invariant ctx B0 B1 L1" by simp
  then show ?case by (rule loop_body_cutoff_invariant[OF wf ag _ loop_reaches_pass.hyps(2)])
qed

lemma selected_positive:
  assumes wf: "ancestry_consistent (m_mempool ctx)" and ag: "aggregates_consistent (m_mempool ctx)"
    and sp: "sizes_positive (m_mempool ctx)"
    and inv: "cutoff_invariant ctx B0 B L"
    and sel: "SelectCandidate (m_mempool ctx) (mi L) (mapModifiedTx L) = Some (package, fUsingModified, mi')"
  shows "0 < unat (nSizeWithAncestors package)"
proof -
  let ?pool = "m_mempool ctx"
  from inv have tc: "tracker_consistent ?pool B L" and cv: "tracker_covers ?pool B L"
    by (simp_all add: cutoff_invariant_def)
  have itT: "iter package \<in> set (mapTx_ancestor_score ?pool)"
    using SelectCandidate_handle(1)[OF sel] tracker_consistentD(1,2)[OF tc] by blast
  have ec: "entry_covers ?pool B package"
    using sel by (rule SelectCandidate_covers) (use cv in \<open>simp add: tracker_covers_def\<close>)
  show ?thesis by (rule entry_covers_positive[OF ec wf ag sp itT])
qed

lemma acceptedPackage_rate:
  assumes wf: "ancestry_consistent (m_mempool ctx)" and ag: "aggregates_consistent (m_mempool ctx)"
    and sp: "sizes_positive (m_mempool ctx)"
    and inv: "cutoff_invariant ctx B0 B L"
    and a: "acceptedPackage ctx B L = Some p"
  shows "of_int (blockMinFeeRate B0) \<le> ancestorFeeRate p"
proof -
  from a obtain fUsingModified mi' where
    sel: "SelectCandidate (m_mempool ctx) (mi L) (mapModifiedTx L) = Some (p, fUsingModified, mi')"
    and fee: "\<not> nModFeesWithAncestors p < CFeeRate_GetFee (blockMinFeeRate B) (nSizeWithAncestors p)"
    by (auto simp: acceptedPackage_def split: if_splits option.splits)
  have "0 < unat (nSizeWithAncestors p)" by (rule selected_positive[OF wf ag sp inv sel])
  then have "of_int (blockMinFeeRate B) \<le> ancestorFeeRate p" using fee by (rule rate_above_cutoff)
  then show ?thesis using inv by (simp add: cutoff_invariant_def)
qed

lemma acceptedPackage_commits:
  assumes a: "acceptedPackage ctx B L = Some p"
  shows "\<exists>B' L'. loop_body ctx B L = Continue B' L' \<and> iter p \<in> set (inBlock B')"
proof -
  let ?pool = "m_mempool ctx"
  from a have ns: "\<not> (mi L \<noteq> [] \<and> SkipMapTxEntry B (hd (mi L)) (mapModifiedTx L) (failedTx L))"
    by (auto simp: acceptedPackage_def split: if_splits)
  with a obtain fUsingModified mi' where
    sel: "SelectCandidate ?pool (mi L) (mapModifiedTx L) = Some (p, fUsingModified, mi')"
    and nin: "iter p \<notin> set (inBlock B)"
    and fee: "\<not> nModFeesWithAncestors p < CFeeRate_GetFee (blockMinFeeRate B) (nSizeWithAncestors p)"
    and tp: "TestPackage ctx B (nSizeWithAncestors p) (nSigOpCountWithAncestors p)"
    and tt: "TestPackageTransactions ctx (packageAncestors ?pool B (iter p))"
    by (auto simp: acceptedPackage_def split: if_splits option.splits)
  obtain B' L' where cp: "commitPackage ?pool B (L\<lparr>mi := mi'\<rparr>) (packageAncestors ?pool B (iter p)) = (B', L')"
    by (cases "commitPackage ?pool B (L\<lparr>mi := mi'\<rparr>) (packageAncestors ?pool B (iter p))")
  have ne: "\<not> (mi L = [] \<and> mapModifiedTx L = [])"
    using sel by (auto simp: SelectCandidate_def)
  have "considerPackage ctx B (L\<lparr>mi := mi'\<rparr>) p fUsingModified = Continue B' L'"
    using nin fee tp tt cp by (simp add: considerPackage_def Let_def)
  then have "loop_body ctx B L = Continue B' L'"
    using ns ne sel by (auto simp: loop_body_def)
  moreover have "iter p \<in> set (inBlock B')"
    using commitPackage_sets(1)[OF cp] by (simp add: packageAncestors_set)
  ultimately show ?thesis by blast
qed

lemma ex_cutoff_block: "example_block_cutoff =
   \<lparr>nBlockMaxSize = 1999000, blockMinFeeRate = 3, nBlockSize = 1300, nBlockTx = 1, nBlockSigOps = 100,
    nFees = 0, nSpecialTxFees = 0, inBlock = [], vtx = [TxNull, TxQuorumCommitment 300],
    vTxFees = [-1, 0], vSpecialTxFees = [-1, 0], vTxSigOps = [-1, 0]\<rparr>"
  by (simp add: example_block_cutoff_def ex_block)

lemma ex_cutoff_run: "addPackageTxs example_ctx example_block_cutoff =
  Returned FeeRateCutoff
   \<lparr>nBlockMaxSize = 1999000, blockMinFeeRate = 3, nBlockSize = 1600, nBlockTx = 3, nBlockSigOps = 102,
    nFees = 1500, nSpecialTxFees = 0, inBlock = [1, 0],
    vtx = [TxNull, TxQuorumCommitment 300, TxMempool 0, TxMempool 1],
    vTxFees = [-1, 0, 500, 1000], vSpecialTxFees = [-1, 0, 0, 0],
    vTxSigOps = [-1, 0, 1, 1]\<rparr>
   \<lparr>mapModifiedTx = [\<lparr>iter = 2, nSizeWithAncestors = 150, nModFeesWithAncestors = 300,
                       nSigOpCountWithAncestors = 1\<rparr>],
    failedTx = [], mi = [], nConsecutiveFailed = 0, nPackagesSelected = 2,
    nDescendantsUpdated = 3\<rparr>"
  unfolding ex_cutoff_block
  by (simp add: example_ctx_def example_miner_def example_pool_def mkEntry_def loop_defs)

lemma example_pool_sorted:
  "sizes_positive (m_mempool example_ctx) \<and>
   index_sorted (m_mempool example_ctx) (mapTx_ancestor_score (m_mempool example_ctx))"
  by (simp add: sizes_positive_def index_sorted_def txSize_def poolFeeRate_def
      example_ctx_def example_pool_def mkEntry_def)

section \<open>Properties of the whole selection loop\<close>

text \<open>
  Claim C6.  Let the pool's ancestry be consistent and let the block that the loop
  extends be consistent.  Then at the head of every pass of the loop no handle is both
  in \<^verbatim>\<open>inBlock\<close> and in the tracker, no pool transaction stands twice in the block, and
  the assertion of the pass holds; and \<^verbatim>\<open>addPackageTxs\<close> returns, in a state with the
  same two properties.
\<close>

theorem inBlock_tracker_disjoint:
  assumes "ancestry_consistent (m_mempool ctx)" and "block_consistent (m_mempool ctx) B"
  shows "(\<forall>B' L'. loop_reaches ctx B (initialLoop ctx B) B' L' \<longrightarrow>
            set (inBlock B') \<inter> iter ` set (mapModifiedTx L') = {} \<and>
            distinct (mempoolTxs (vtx B')) \<and>
            loop_body ctx B' L' \<noteq> AssertionFailure) \<and>
         (\<exists>r B' L'. addPackageTxs ctx B = Returned r B' L' \<and>
            set (inBlock B') \<inter> iter ` set (mapModifiedTx L') = {} \<and>
            distinct (mempoolTxs (vtx B')))"
proof -
  let ?pool = "m_mempool ctx"
  let ?P = "\<lambda>B L. block_consistent ?pool B \<and> tracker_consistent ?pool B L"
  have init: "?P B (initialLoop ctx B)"
    using assms(2) initialLoop_consistent by simp
  have reach: "?P B' L'" if "loop_reaches ctx B (initialLoop ctx B) B' L'" for B' L'
    using loop_reaches_consistent[OF assms(1) that] init by simp
  have 1: "\<forall>B' L'. loop_reaches ctx B (initialLoop ctx B) B' L' \<longrightarrow>
            set (inBlock B') \<inter> iter ` set (mapModifiedTx L') = {} \<and>
            distinct (mempoolTxs (vtx B')) \<and>
            loop_body ctx B' L' \<noteq> AssertionFailure"
  proof (intro allI impI)
    fix B' L' assume "loop_reaches ctx B (initialLoop ctx B) B' L'"
    then have p: "block_consistent ?pool B'" "tracker_consistent ?pool B' L'"
      using reach by simp_all
    show "set (inBlock B') \<inter> iter ` set (mapModifiedTx L') = {} \<and>
            distinct (mempoolTxs (vtx B')) \<and>
            loop_body ctx B' L' \<noteq> AssertionFailure"
      using tracker_consistentD(4)[OF p(2)] p(1) loop_body_no_assertion_failure[OF p(2)]
      by (simp add: block_consistent_def)
  qed
  have "\<exists>r B' L'. addPackageTxs_loop ctx B (initialLoop ctx B) = Returned r B' L'"
  proof (rule addPackageTxs_loop_returns[where P = ?P])
    show "?P B (initialLoop ctx B)" by (rule init)
    show "\<And>B L. ?P B L \<Longrightarrow> loop_body ctx B L \<noteq> AssertionFailure"
      using loop_body_no_assertion_failure by simp
    show "?P B1 L1" if "?P B0 L0" "loop_body ctx B0 L0 = Continue B1 L1" for B0 L0 B1 L1
      using loop_body_consistent[OF assms(1) _ _ that(2)] that(1) by simp
  qed
  then obtain r B' L' where ret: "addPackageTxs_loop ctx B (initialLoop ctx B) = Returned r B' L'"
    by blast
  then obtain L2 where l2: "loop_reaches ctx B (initialLoop ctx B) B' L2"
    "loop_body ctx B' L2 = Exit r B' L'"
    using addPackageTxs_loop_reaches by blast
  have p: "block_consistent ?pool B'" "tracker_consistent ?pool B' L2"
    using reach[OF l2(1)] by simp_all
  have "set (inBlock B') \<inter> iter ` set (mapModifiedTx L') = {}"
    using tracker_consistentD(4)[OF p(2)] loop_body_Exit_tracker(2)[OF l2(2)] by blast
  then have 2: "\<exists>r B' L'. addPackageTxs ctx B = Returned r B' L' \<and>
            set (inBlock B') \<inter> iter ` set (mapModifiedTx L') = {} \<and>
            distinct (mempoolTxs (vtx B'))"
    using ret p(1) by (auto simp: addPackageTxs_def block_consistent_def)
  show ?thesis using 1 2 by simp
qed

theorem inBlock_tracker_disjoint_witness:
  "ancestry_consistent (m_mempool example_ctx) \<and>
   block_consistent (m_mempool example_ctx) example_block \<and>
   addPackageTxs example_ctx example_block =
     Returned LoopConditionFalse
       \<lparr>nBlockMaxSize = 1999000, blockMinFeeRate = 1, nBlockSize = 1870, nBlockTx = 5,
        nBlockSigOps = 104, nFees = 2040, nSpecialTxFees = 0, inBlock = [2, 3, 1, 0],
        vtx = [TxNull, TxQuorumCommitment 300, TxMempool 0, TxMempool 1, TxMempool 3,
               TxMempool 2],
        vTxFees = [-1, 0, 500, 1000, 240, 300], vSpecialTxFees = [-1, 0, 0, 0, 0, 0],
        vTxSigOps = [-1, 0, 1, 1, 1, 1]\<rparr>
       \<lparr>mapModifiedTx = [], failedTx = [], mi = [], nConsecutiveFailed = 0,
        nPackagesSelected = 4, nDescendantsUpdated = 3\<rparr>"
  using example_pool_ancestry example_block_consistent ex_run
    inBlock_tracker_disjoint[OF example_pool_ancestry example_block_consistent]
  by simp

lemma acceptedPackage_commitE:
  assumes a: "acceptedPackage ctx B L = Some p"
  obtains fUsingModified mi' B' L' where
    "SelectCandidate (m_mempool ctx) (mi L) (mapModifiedTx L) = Some (p, fUsingModified, mi')"
    "iter p \<notin> set (inBlock B)"
    "commitPackage (m_mempool ctx) B (L\<lparr>mi := mi'\<rparr>) (packageAncestors (m_mempool ctx) B (iter p))
       = (B', L')"
    "loop_body ctx B L = Continue B' L'"
proof -
  let ?pool = "m_mempool ctx"
  from a have ns: "\<not> (mi L \<noteq> [] \<and> SkipMapTxEntry B (hd (mi L)) (mapModifiedTx L) (failedTx L))"
    by (auto simp: acceptedPackage_def split: if_splits)
  with a obtain fUsingModified mi' where
    sel: "SelectCandidate ?pool (mi L) (mapModifiedTx L) = Some (p, fUsingModified, mi')"
    and nin: "iter p \<notin> set (inBlock B)"
    and fee: "\<not> nModFeesWithAncestors p < CFeeRate_GetFee (blockMinFeeRate B) (nSizeWithAncestors p)"
    and tp: "TestPackage ctx B (nSizeWithAncestors p) (nSigOpCountWithAncestors p)"
    and tt: "TestPackageTransactions ctx (packageAncestors ?pool B (iter p))"
    by (auto simp: acceptedPackage_def split: if_splits option.splits)
  obtain B' L' where cp: "commitPackage ?pool B (L\<lparr>mi := mi'\<rparr>) (packageAncestors ?pool B (iter p)) = (B', L')"
    by (cases "commitPackage ?pool B (L\<lparr>mi := mi'\<rparr>) (packageAncestors ?pool B (iter p))")
  have ne: "\<not> (mi L = [] \<and> mapModifiedTx L = [])"
    using sel by (auto simp: SelectCandidate_def)
  have "considerPackage ctx B (L\<lparr>mi := mi'\<rparr>) p fUsingModified = Continue B' L'"
    using nin fee tp tt cp by (simp add: considerPackage_def Let_def)
  then have "loop_body ctx B L = Continue B' L'"
    using ns ne sel by (auto simp: loop_body_def)
  then show ?thesis using that[OF sel nin cp] by simp
qed

lemma loop_body_not_accepted:
  assumes c: "loop_body ctx B L = Continue B' L'" and n: "acceptedPackage ctx B L = None"
  shows "B' = B"
  using c
proof (cases rule: loop_body_ContinueE)
  case skip
  then show ?thesis by simp
next
  case (fail package fUsingModified mi')
  then show ?thesis by simp
next
  case (commit package fUsingModified mi')
  then have "acceptedPackage ctx B L = Some package"
    by (simp add: acceptedPackage_def)
  then show ?thesis using n by simp
qed

lemma example_chain_consistent:
  "ancestry_consistent (m_mempool example_ctx_chain) \<and>
   counts_consistent (m_mempool example_ctx_chain)"
  by (simp add: ancestry_consistent_def counts_consistent_def example_ctx_chain_def
      example_pool_chain_def mkEntry_def)

lemma ex_chain_pass:
  "loop_body example_ctx_chain example_block (initialLoop example_ctx_chain example_block) =
   Continue
    \<lparr>nBlockMaxSize = 1999000, blockMinFeeRate = 1, nBlockSize = 1600, nBlockTx = 4,
     nBlockSigOps = 103, nFees = 3000, nSpecialTxFees = 0, inBlock = [2, 1, 0],
     vtx = [TxNull, TxQuorumCommitment 300, TxMempool 0, TxMempool 1, TxMempool 2],
     vTxFees = [- 1, 0, 100, 100, 2800], vSpecialTxFees = [- 1, 0, 0, 0, 0],
     vTxSigOps = [- 1, 0, 1, 1, 1]\<rparr>
    \<lparr>mapModifiedTx = [], failedTx = [], mi = [0, 1], nConsecutiveFailed = 0,
     nPackagesSelected = 1, nDescendantsUpdated = 0\<rparr>"
  unfolding ex_block
  by (simp add: example_ctx_chain_def example_miner_def example_pool_chain_def mkEntry_def loop_defs)

text \<open>
  Claim C4.  Let, in addition, the pool's ancestor counts agree with its ancestor sets.
  A pass of the loop that accepts a package appends to the block exactly the package,
  sorted by ascending ancestor count: the selected transaction and those of its in-pool
  ancestors that are not yet in the block, each once.  A pass that accepts none leaves
  the block as it is.  At the head of every pass, after every accepting pass, and in
  the state that \<^verbatim>\<open>addPackageTxs\<close> returns, no pool transaction of the block precedes any
  of its in-pool ancestors; indeed all of its in-pool ancestors precede it.
\<close>

theorem block_order_topological:
  assumes "ancestry_consistent (m_mempool ctx)" and "counts_consistent (m_mempool ctx)"
    and "block_consistent (m_mempool ctx) B"
    and "ancestors_first (m_mempool ctx) (mempoolTxs (vtx B))"
  shows "(\<forall>B1 L1. loop_reaches ctx B (initialLoop ctx B) B1 L1 \<longrightarrow>
            topological (m_mempool ctx) (mempoolTxs (vtx B1)) \<and>
            (\<forall>p. acceptedPackage ctx B1 L1 = Some p \<longrightarrow>
               (\<exists>B2 L2. loop_body ctx B1 L1 = Continue B2 L2 \<and>
                  vtx B2 = vtx B1 @ map TxMempool
                    (SortForBlock (m_mempool ctx) (packageAncestors (m_mempool ctx) B1 (iter p))) \<and>
                  distinct (SortForBlock (m_mempool ctx) (packageAncestors (m_mempool ctx) B1 (iter p))) \<and>
                  set (SortForBlock (m_mempool ctx) (packageAncestors (m_mempool ctx) B1 (iter p)))
                    = insert (iter p)
                        (set (CalculateMemPoolAncestors (m_mempool ctx) (iter p)) - set (inBlock B1)) \<and>
                  sorted (map (\<lambda>t. unat (GetCountWithAncestors (entry (m_mempool ctx) t)))
                    (SortForBlock (m_mempool ctx) (packageAncestors (m_mempool ctx) B1 (iter p)))) \<and>
                  topological (m_mempool ctx) (mempoolTxs (vtx B2)))) \<and>
            (\<forall>B2 L2. acceptedPackage ctx B1 L1 = None \<and> loop_body ctx B1 L1 = Continue B2 L2 \<longrightarrow>
               vtx B2 = vtx B1)) \<and>
         (\<forall>r B' L'. addPackageTxs ctx B = Returned r B' L' \<longrightarrow>
            topological (m_mempool ctx) (mempoolTxs (vtx B')) \<and>
            ancestors_first (m_mempool ctx) (mempoolTxs (vtx B')))"
proof -
  let ?pool = "m_mempool ctx"
  let ?P = "\<lambda>B L. block_consistent ?pool B \<and> tracker_consistent ?pool B L \<and>
                   ancestors_first ?pool (mempoolTxs (vtx B))"
  have init: "?P B (initialLoop ctx B)"
    using assms(3,4) initialLoop_consistent by simp
  have step: "?P B2 L2" if "?P B1 L1" "loop_body ctx B1 L1 = Continue B2 L2" for B1 L1 B2 L2
    using loop_body_consistent[OF assms(1) _ _ that(2)]
      loop_body_ancestors_first[OF assms(1,2) _ _ _ that(2)] that(1) by simp
  have reach: "?P B1 L1" if "loop_reaches ctx B (initialLoop ctx B) B1 L1" for B1 L1
    by (rule loop_reaches_invariant[OF that, where P = ?P, OF init step])
  have topo: "topological ?pool (mempoolTxs (vtx B1))" if "?P B1 L1" for B1 L1
    using that by (intro ancestors_first_topological) (simp_all add: block_consistent_def)
  have acc: "\<exists>B2 L2. loop_body ctx B1 L1 = Continue B2 L2 \<and>
                  vtx B2 = vtx B1 @ map TxMempool
                    (SortForBlock ?pool (packageAncestors ?pool B1 (iter p))) \<and>
                  distinct (SortForBlock ?pool (packageAncestors ?pool B1 (iter p))) \<and>
                  set (SortForBlock ?pool (packageAncestors ?pool B1 (iter p)))
                    = insert (iter p)
                        (set (CalculateMemPoolAncestors ?pool (iter p)) - set (inBlock B1)) \<and>
                  sorted (map (\<lambda>t. unat (GetCountWithAncestors (entry ?pool t)))
                    (SortForBlock ?pool (packageAncestors ?pool B1 (iter p)))) \<and>
                  topological ?pool (mempoolTxs (vtx B2))"
    if P: "?P B1 L1" and a: "acceptedPackage ctx B1 L1 = Some p" for B1 L1 p
  proof -
    let ?K = "packageAncestors ?pool B1 (iter p)"
    from a obtain fUsingModified mi' B2 L2 where
      sel: "SelectCandidate ?pool (mi L1) (mapModifiedTx L1) = Some (p, fUsingModified, mi')"
      and cp: "commitPackage ?pool B1 (L1\<lparr>mi := mi'\<rparr>) ?K = (B2, L2)"
      and lb: "loop_body ctx B1 L1 = Continue B2 L2"
      by (rule acceptedPackage_commitE)
    from P have tc: "tracker_consistent ?pool B1 L1" by simp
    have itT: "iter p \<in> set (mapTx_ancestor_score ?pool)"
      using SelectCandidate_handle(1)[OF sel] tracker_consistentD(1,2)[OF tc] by blast
    then have d: "distinct (CalculateMemPoolAncestors ?pool (iter p))"
      using assms(1) by (simp add: ancestry_consistent_def)
    have 1: "vtx B2 = vtx B1 @ map TxMempool (SortForBlock ?pool ?K)"
      using commitPackage_B[OF cp] by (simp add: addSortedEntries_fields)
    have 2: "distinct (SortForBlock ?pool ?K)"
      using packageAncestors_distinct[OF d, of B1] by (simp add: SortForBlock_def)
    have 3: "set (SortForBlock ?pool ?K)
               = insert (iter p) (set (CalculateMemPoolAncestors ?pool (iter p)) - set (inBlock B1))"
      by (simp add: SortForBlock_def packageAncestors_set)
    have 4: "sorted (map (\<lambda>t. unat (GetCountWithAncestors (entry ?pool t))) (SortForBlock ?pool ?K))"
      by (simp add: SortForBlock_def)
    have 5: "topological ?pool (mempoolTxs (vtx B2))" using topo[OF step[OF P lb]] .
    show ?thesis using lb 1 2 3 4 5 by blast
  qed
  have 1: "\<forall>B1 L1. loop_reaches ctx B (initialLoop ctx B) B1 L1 \<longrightarrow>
            topological ?pool (mempoolTxs (vtx B1)) \<and>
            (\<forall>p. acceptedPackage ctx B1 L1 = Some p \<longrightarrow>
               (\<exists>B2 L2. loop_body ctx B1 L1 = Continue B2 L2 \<and>
                  vtx B2 = vtx B1 @ map TxMempool
                    (SortForBlock ?pool (packageAncestors ?pool B1 (iter p))) \<and>
                  distinct (SortForBlock ?pool (packageAncestors ?pool B1 (iter p))) \<and>
                  set (SortForBlock ?pool (packageAncestors ?pool B1 (iter p)))
                    = insert (iter p)
                        (set (CalculateMemPoolAncestors ?pool (iter p)) - set (inBlock B1)) \<and>
                  sorted (map (\<lambda>t. unat (GetCountWithAncestors (entry ?pool t)))
                    (SortForBlock ?pool (packageAncestors ?pool B1 (iter p)))) \<and>
                  topological ?pool (mempoolTxs (vtx B2)))) \<and>
            (\<forall>B2 L2. acceptedPackage ctx B1 L1 = None \<and> loop_body ctx B1 L1 = Continue B2 L2 \<longrightarrow>
               vtx B2 = vtx B1)"
  proof (intro allI impI conjI)
    fix B1 L1 assume r: "loop_reaches ctx B (initialLoop ctx B) B1 L1"
    show "topological ?pool (mempoolTxs (vtx B1))" using topo[OF reach[OF r]] .
    {
      fix p assume "acceptedPackage ctx B1 L1 = Some p"
      then show "\<exists>B2 L2. loop_body ctx B1 L1 = Continue B2 L2 \<and>
                  vtx B2 = vtx B1 @ map TxMempool
                    (SortForBlock ?pool (packageAncestors ?pool B1 (iter p))) \<and>
                  distinct (SortForBlock ?pool (packageAncestors ?pool B1 (iter p))) \<and>
                  set (SortForBlock ?pool (packageAncestors ?pool B1 (iter p)))
                    = insert (iter p)
                        (set (CalculateMemPoolAncestors ?pool (iter p)) - set (inBlock B1)) \<and>
                  sorted (map (\<lambda>t. unat (GetCountWithAncestors (entry ?pool t)))
                    (SortForBlock ?pool (packageAncestors ?pool B1 (iter p)))) \<and>
                  topological ?pool (mempoolTxs (vtx B2))"
        by (rule acc[OF reach[OF r]])
    }
    {
      fix B2 L2
      assume "acceptedPackage ctx B1 L1 = None \<and> loop_body ctx B1 L1 = Continue B2 L2"
      then show "vtx B2 = vtx B1" using loop_body_not_accepted[of ctx B1 L1 B2 L2] by simp
    }
  qed
  have 2: "\<forall>r B' L'. addPackageTxs ctx B = Returned r B' L' \<longrightarrow>
            topological ?pool (mempoolTxs (vtx B')) \<and>
            ancestors_first ?pool (mempoolTxs (vtx B'))"
  proof (intro allI impI)
    fix r B' L' assume "addPackageTxs ctx B = Returned r B' L'"
    then obtain L2 where "loop_reaches ctx B (initialLoop ctx B) B' L2"
      using addPackageTxs_loop_reaches[of ctx B "initialLoop ctx B" r B' L']
      by (auto simp: addPackageTxs_def)
    then have p: "?P B' L2" by (rule reach)
    then show "topological ?pool (mempoolTxs (vtx B')) \<and>
            ancestors_first ?pool (mempoolTxs (vtx B'))"
      using topo[OF p] by simp
  qed
  show ?thesis using 1 2 by simp
qed

theorem block_order_topological_witness:
  "ancestry_consistent (m_mempool example_ctx_chain) \<and>
   counts_consistent (m_mempool example_ctx_chain) \<and>
   block_consistent (m_mempool example_ctx_chain) example_block \<and>
   ancestors_first (m_mempool example_ctx_chain) (mempoolTxs (vtx example_block)) \<and>
   acceptedPackage example_ctx_chain example_block (initialLoop example_ctx_chain example_block)
     = Some \<lparr>iter = 2, nSizeWithAncestors = 300, nModFeesWithAncestors = 3000,
              nSigOpCountWithAncestors = 3\<rparr> \<and>
   packageAncestors (m_mempool example_ctx_chain) example_block 2 = [2, 1, 0] \<and>
   SortForBlock (m_mempool example_ctx_chain) [2, 1, 0] = [0, 1, 2] \<and>
   vtx example_block @ map TxMempool [0, 1, 2]
     = [TxNull, TxQuorumCommitment 300, TxMempool 0, TxMempool 1, TxMempool 2] \<and>
   topological (m_mempool example_ctx_chain) [0, 1, 2]"
proof -
  let ?ctx = "example_ctx_chain"
  let ?pa = "\<lparr>iter = 2, nSizeWithAncestors = 300, nModFeesWithAncestors = 3000,
              nSigOpCountWithAncestors = 3\<rparr>"
  have bc: "block_consistent (m_mempool ?ctx) example_block"
    unfolding example_block_def by (rule prepareBlock_block_consistent)
  have af: "ancestors_first (m_mempool ?ctx) (mempoolTxs (vtx example_block))"
    by (simp add: ancestors_first_def ex_block)
  have a: "acceptedPackage ?ctx example_block (initialLoop ?ctx example_block) = Some ?pa"
    unfolding ex_block
    by (simp add: acceptedPackage_def example_ctx_chain_def example_miner_def
        example_pool_chain_def mkEntry_def loop_defs)
  have k: "packageAncestors (m_mempool ?ctx) example_block 2 = [2, 1, 0]"
    by (simp add: packageAncestors_def onlyUnconfirmed_def ex_block example_ctx_chain_def
        example_pool_chain_def)
  have s: "SortForBlock (m_mempool ?ctx) [2, 1, 0] = [0, 1, 2]"
    by (simp add: SortForBlock_def example_ctx_chain_def example_pool_chain_def mkEntry_def)
  have r: "loop_reaches ?ctx example_block (initialLoop ?ctx example_block)
             example_block (initialLoop ?ctx example_block)"
    by (rule loop_reaches_start)
  note t = block_order_topological[OF example_chain_consistent[THEN conjunct1]
      example_chain_consistent[THEN conjunct2] bc af, THEN conjunct1, rule_format, OF r,
      THEN conjunct2, THEN conjunct1, rule_format, OF a]
  then have "topological (m_mempool ?ctx) [0, 1, 2]"
    by (auto simp: ex_chain_pass)
  moreover have "vtx example_block @ map TxMempool [0, 1, 2]
     = [TxNull, TxQuorumCommitment 300, TxMempool 0, TxMempool 1, TxMempool 2]"
    by (simp add: ex_block)
  ultimately show ?thesis
    using example_chain_consistent bc af a k s by simp
qed


section \<open>The capacity test and the capacity invariant\<close>

text \<open>
  Claim C1, as the code has it.  Where the two sums do not wrap around (64 bits for the
  size, 32 bits for the sigops), \<^verbatim>\<open>TestPackage\<close> rejects a package exactly when the
  block's size plus the package's size is at least \<^verbatim>\<open>nBlockMaxSize\<close> or the block's sigops
  plus the package's sigops are at least the sigop maximum: equality rejects.  The test
  is made in the selection loop only.  So let the pool's ancestor sets and aggregate
  sizes and sigop counts be consistent and bounded, and let the block's totals be
  strictly below the two maxima when the selection starts (the totals then are the 1000
  bytes and 100 sigops reserved for the coinbase and the quorum commitments, which are
  added untested).  Then \<^verbatim>\<open>addPackageTxs\<close> returns with totals strictly below the maxima,
  and every block template that \<^verbatim>\<open>CreateNewBlock\<close> produces has a size and a sigop count
  strictly below them.
\<close>

theorem capacity_test_and_invariant:
  "(unat (nBlockSize B0) + unat p < 2 ^ 64 \<and> unat (nBlockSigOps B0) + unat q < 2 ^ 32 \<longrightarrow>
      (\<not> TestPackage ctx B0 p q \<longleftrightarrow>
         unat (nBlockSize B0) + unat p \<ge> unat (nBlockMaxSize B0) \<or>
         unat (nBlockSigOps B0) + unat q \<ge> unat (MaxBlockSigOps ctx))) \<and>
   (ancestry_consistent (m_mempool ctx) \<and> aggregates_consistent (m_mempool ctx) \<and>
    aggregates_bounded ctx \<and> block_consistent (m_mempool ctx) B \<and> distinct (inBlock B) \<and>
    below_limits ctx B \<longrightarrow>
      (\<exists>r B' L'. addPackageTxs ctx B = Returned r B' L' \<and>
         unat (nBlockSize B') < unat (nBlockMaxSize B) \<and>
         unat (nBlockSigOps B') < unat (MaxBlockSigOps ctx))) \<and>
   (ancestry_consistent (m_mempool (miner bc)) \<and> aggregates_consistent (m_mempool (miner bc)) \<and>
    aggregates_bounded (miner bc) \<and> below_limits (miner bc) (prepareBlock bc options) \<and>
    CreateNewBlock bc options scriptPubKeyIn = Inr T \<longrightarrow>
      unat (nLastBlockSize T) < unat (nBlockMaxSize (prepareBlock bc options)) \<and>
      unat (nLastBlockSigOps T) < unat (MaxBlockSigOps (miner bc)))"
proof (intro conjI impI)
  assume "unat (nBlockSize B0) + unat p < 2 ^ 64 \<and> unat (nBlockSigOps B0) + unat q < 2 ^ 32"
  then show "\<not> TestPackage ctx B0 p q \<longleftrightarrow>
         unat (nBlockSize B0) + unat p \<ge> unat (nBlockMaxSize B0) \<or>
         unat (nBlockSigOps B0) + unat q \<ge> unat (MaxBlockSigOps ctx)"
    using TestPackage_arith[of B0 p q ctx] by simp
next
  assume a: "ancestry_consistent (m_mempool ctx) \<and> aggregates_consistent (m_mempool ctx) \<and>
    aggregates_bounded ctx \<and> block_consistent (m_mempool ctx) B \<and> distinct (inBlock B) \<and>
    below_limits ctx B"
  then have "\<exists>r B' L'. addPackageTxs ctx B = Returned r B' L' \<and> below_limits ctx B' \<and>
           nBlockMaxSize B' = nBlockMaxSize B"
    by (intro addPackageTxs_capacity) simp_all
  then show "\<exists>r B' L'. addPackageTxs ctx B = Returned r B' L' \<and>
         unat (nBlockSize B') < unat (nBlockMaxSize B) \<and>
         unat (nBlockSigOps B') < unat (MaxBlockSigOps ctx)"
    by (auto simp: below_limits_def)
next
  let ?B = "prepareBlock bc options"
  assume a: "ancestry_consistent (m_mempool (miner bc)) \<and> aggregates_consistent (m_mempool (miner bc)) \<and>
    aggregates_bounded (miner bc) \<and> below_limits (miner bc) (prepareBlock bc options) \<and>
    CreateNewBlock bc options scriptPubKeyIn = Inr T"
  then have c: "CreateNewBlock bc options scriptPubKeyIn = Inr T" by simp
  then obtain pindexPrev where t: "ChainActive_Tip (node bc) = Some pindexPrev"
    by (cases "ChainActive_Tip (node bc)") (simp_all add: CreateNewBlock_def)
  from c t obtain reason B1 L1 where
    r: "addPackageTxs (miner bc) ?B = Returned reason B1 L1"
    and n: "nLastBlockSize T = nBlockSize B1" "nLastBlockSigOps T = nBlockSigOps B1"
    by (rule CreateNewBlock_Inr)
  have di: "distinct (inBlock ?B)" by (simp add: prepareBlock_inBlock)
  have "\<exists>r B' L'. addPackageTxs (miner bc) ?B = Returned r B' L' \<and> below_limits (miner bc) B' \<and>
           nBlockMaxSize B' = nBlockMaxSize ?B"
    using a di by (intro addPackageTxs_capacity prepareBlock_block_consistent) simp_all
  then have "below_limits (miner bc) B1" "nBlockMaxSize B1 = nBlockMaxSize ?B" using r by auto
  then show "unat (nLastBlockSize T) < unat (nBlockMaxSize ?B)"
    and "unat (nLastBlockSigOps T) < unat (MaxBlockSigOps (miner bc))"
    using n by (simp_all add: below_limits_def)
qed

theorem capacity_test_and_invariant_witness:
  "\<not> TestPackage example_ctx example_block 1997700 1 \<and>
   TestPackage example_ctx example_block 1997699 1 \<and>
   below_limits example_ctx example_block \<and>
   addPackageTxs example_ctx example_block \<noteq> Aborted \<and>
   nLastBlockSize \<lparr>block_vtx = [TxCoinbase \<lparr>vout = [\<lparr>nValue = 5688, scriptPubKey = [9]\<rparr>,
                                              \<lparr>nValue = 1000, scriptPubKey = [8]\<rparr>,
                                              \<lparr>nValue = 352, scriptPubKey = [7]\<rparr>]\<rparr>,
                       TxQuorumCommitment 300, TxMempool 0, TxMempool 1, TxMempool 3, TxMempool 2],
          block_txoutFortune = \<lparr>nValue = 352, scriptPubKey = [7]\<rparr>,
          block_hashPrevBlock = 2 ^ 65 + 5,
          template_vTxFees = [- 2040, 0, 500, 1000, 240, 300],
          template_vSpecialTxFees = [0, 0, 0, 0, 0, 0],
          template_vTxSigOps = [1, 0, 1, 1, 1, 1],
          voutSmartnodePayments = [\<lparr>nValue = 1000, scriptPubKey = [8]\<rparr>],
          voutSuperblockPayments = [], nPrevBits = 0,
          nLastBlockTx = 5, nLastBlockSize = 1870, nLastBlockSigOps = 104\<rparr> = 1870 \<and>
   unat (1870 :: 64 word) < unat (nBlockMaxSize example_block) \<and>
   unat (104 :: 32 word) < unat (MaxBlockSigOps example_ctx)"
proof -
  let ?bc = "example_bc\<lparr>miner := example_ctx\<rparr>"
  let ?T = "\<lparr>block_vtx = [TxCoinbase \<lparr>vout = [\<lparr>nValue = 5688, scriptPubKey = [9]\<rparr>,
                                              \<lparr>nValue = 1000, scriptPubKey = [8]\<rparr>,
                                              \<lparr>nValue = 352, scriptPubKey = [7]\<rparr>]\<rparr>,
                       TxQuorumCommitment 300, TxMempool 0, TxMempool 1, TxMempool 3, TxMempool 2],
          block_txoutFortune = \<lparr>nValue = 352, scriptPubKey = [7]\<rparr>,
          block_hashPrevBlock = 2 ^ 65 + 5,
          template_vTxFees = [- 2040, 0, 500, 1000, 240, 300],
          template_vSpecialTxFees = [0, 0, 0, 0, 0, 0],
          template_vTxSigOps = [1, 0, 1, 1, 1, 1],
          voutSmartnodePayments = [\<lparr>nValue = 1000, scriptPubKey = [8]\<rparr>],
          voutSuperblockPayments = [], nPrevBits = 0,
          nLastBlockTx = 5, nLastBlockSize = 1870, nLastBlockSigOps = 104\<rparr> :: CBlockTemplate"
  have m: "miner ?bc = example_ctx" by simp
  have b: "prepareBlock ?bc example_options = example_block" by (simp add: example_block_def)
  have w: "unat (nBlockSize example_block) + unat (1997700 :: 64 word) < 2 ^ 64"
    "unat (nBlockSigOps example_block) + unat (1 :: 32 word) < 2 ^ 32"
    "unat (nBlockSize example_block) + unat (1997699 :: 64 word) < 2 ^ 64"
    by (simp_all add: ex_block)
  have mx: "unat (nBlockMaxSize example_block) = 1999000" "unat (MaxBlockSigOps example_ctx) = 40000"
    "unat (nBlockSize example_block) = 1300" "unat (nBlockSigOps example_block) = 100"
    by (simp_all add: ex_block example_ctx_def example_miner_def)
  note t1 = capacity_test_and_invariant[of example_block 1997700 1 example_ctx example_block ?bc
      example_options "[9]" ?T, unfolded m b]
  note t2 = capacity_test_and_invariant[of example_block 1997699 1 example_ctx example_block ?bc
      example_options "[9]" ?T, unfolded m b]
  have d: "distinct (inBlock example_block)" by (simp add: ex_block)
  have 1: "\<not> TestPackage example_ctx example_block 1997700 1"
    using t1 w mx by simp
  have 2: "TestPackage example_ctx example_block 1997699 1"
    using t2 w mx by simp
  have 3: "addPackageTxs example_ctx example_block \<noteq> Aborted"
    using t1 example_pool_ancestry example_pool_aggregates example_pool_bounded
      example_block_consistent d example_block_below by auto
  have 4: "unat (nLastBlockSize ?T) < unat (nBlockMaxSize example_block) \<and>
           unat (nLastBlockSigOps ?T) < unat (MaxBlockSigOps example_ctx)"
    using t1 example_pool_ancestry example_pool_aggregates example_pool_bounded
      example_block_below ex_template[unfolded m b] by blast
  show ?thesis using 1 2 3 4 example_block_below by simp
qed

text \<open>
  With \<^verbatim>\<open>-blockmaxsize\<close> at 1000, an empty pool and no quorum commitment, the template has
  the 1000 bytes reserved for the coinbase: its size is the maximum, not below it.
\<close>

theorem template_at_maximum_counterexample:
  "CreateNewBlock example_bc_small example_options_small [9] =
     Inr \<lparr>block_vtx = [TxCoinbase \<lparr>vout = [\<lparr>nValue = 3750, scriptPubKey = [9]\<rparr>,
                                              \<lparr>nValue = 1000, scriptPubKey = [8]\<rparr>,
                                              \<lparr>nValue = 250, scriptPubKey = [7]\<rparr>]\<rparr>],
          block_txoutFortune = \<lparr>nValue = 250, scriptPubKey = [7]\<rparr>,
          block_hashPrevBlock = 2 ^ 65 + 5,
          template_vTxFees = [0], template_vSpecialTxFees = [0], template_vTxSigOps = [1],
          voutSmartnodePayments = [\<lparr>nValue = 1000, scriptPubKey = [8]\<rparr>],
          voutSuperblockPayments = [], nPrevBits = 0,
          nLastBlockTx = 0, nLastBlockSize = 1000, nLastBlockSigOps = 100\<rparr> \<and>
   options_nBlockMaxSize example_options_small = 1000 \<and>
   nBlockMaxSize (BlockAssembler_init (miner example_bc_small) example_options_small) = 1000"
  by (simp add: example_bc_small_def example_options_small_def example_defs assembler_defs
      DEFAULT_FORTUNE_ADDRESS_def)


section \<open>The fee-rate cutoff\<close>

text \<open>
  Claim C2.  In a pass that does not skip and selects a package that is not in the
  block, if the package's ancestor-aggregate fee is below the minimum fee-rate times the
  package's size, the pass leaves the loop and \<^verbatim>\<open>addPackageTxs\<close> returns at once, with the
  block as it was.  And let the pool be consistent (ancestor sets, aggregate sizes and
  sigop counts), every transaction have a positive size, and \<^verbatim>\<open>mapTx\<close> be indexed in
  descending order of ancestor fee-rate.  If \<^verbatim>\<open>addPackageTxs\<close> returns through the cutoff,
  then every handle left in the index and every entry left in the tracker has an
  ancestor fee-rate that is at most the fee-rate of any package that a pass of the run
  accepted, the last one among them.
\<close>

theorem fee_rate_cutoff:
  "(\<not> (mi L \<noteq> [] \<and> SkipMapTxEntry B (hd (mi L)) (mapModifiedTx L) (failedTx L)) \<and>
    SelectCandidate (m_mempool ctx) (mi L) (mapModifiedTx L) = Some (package, fUsingModified, mi') \<and>
    iter package \<notin> set (inBlock B) \<and>
    nModFeesWithAncestors package
      < CFeeRate_GetFee (blockMinFeeRate B) (nSizeWithAncestors package) \<longrightarrow>
      loop_body ctx B L = Exit FeeRateCutoff B (L\<lparr>mi := mi'\<rparr>) \<and>
      addPackageTxs_loop ctx B L = Returned FeeRateCutoff B (L\<lparr>mi := mi'\<rparr>)) \<and>
   (ancestry_consistent (m_mempool ctx) \<and> aggregates_consistent (m_mempool ctx) \<and>
    sizes_positive (m_mempool ctx) \<and>
    index_sorted (m_mempool ctx) (mapTx_ancestor_score (m_mempool ctx)) \<and>
    block_consistent (m_mempool ctx) B0 \<and> distinct (inBlock B0) \<and>
    loop_reaches ctx B0 (initialLoop ctx B0) B1 L1 \<and> acceptedPackage ctx B1 L1 = Some p \<and>
    addPackageTxs ctx B0 = Returned FeeRateCutoff B' L' \<longrightarrow>
      (\<forall>t \<in> set (mi L'). poolFeeRate (m_mempool ctx) t \<le> ancestorFeeRate p) \<and>
      (\<forall>e \<in> set (mapModifiedTx L'). ancestorFeeRate e \<le> ancestorFeeRate p))"
proof (intro conjI impI)
  assume h: "\<not> (mi L \<noteq> [] \<and> SkipMapTxEntry B (hd (mi L)) (mapModifiedTx L) (failedTx L)) \<and>
    SelectCandidate (m_mempool ctx) (mi L) (mapModifiedTx L) = Some (package, fUsingModified, mi') \<and>
    iter package \<notin> set (inBlock B) \<and>
    nModFeesWithAncestors package
      < CFeeRate_GetFee (blockMinFeeRate B) (nSizeWithAncestors package)"
  then have ne: "\<not> (mi L = [] \<and> mapModifiedTx L = [])" by (auto simp: SelectCandidate_def)
  have "considerPackage ctx B (L\<lparr>mi := mi'\<rparr>) package fUsingModified
          = Exit FeeRateCutoff B (L\<lparr>mi := mi'\<rparr>)"
    using h by (simp add: considerPackage_def Let_def)
  then show lb: "loop_body ctx B L = Exit FeeRateCutoff B (L\<lparr>mi := mi'\<rparr>)"
    using h ne by (simp add: loop_body_def)
  show "addPackageTxs_loop ctx B L = Returned FeeRateCutoff B (L\<lparr>mi := mi'\<rparr>)"
    using lb by (simp add: addPackageTxs_loop.simps[of ctx B L])
next
  let ?pool = "m_mempool ctx"
  assume h: "ancestry_consistent ?pool \<and> aggregates_consistent ?pool \<and>
    sizes_positive ?pool \<and> index_sorted ?pool (mapTx_ancestor_score ?pool) \<and>
    block_consistent ?pool B0 \<and> distinct (inBlock B0) \<and>
    loop_reaches ctx B0 (initialLoop ctx B0) B1 L1 \<and> acceptedPackage ctx B1 L1 = Some p \<and>
    addPackageTxs ctx B0 = Returned FeeRateCutoff B' L'"
  then have wf: "ancestry_consistent ?pool" and ag: "aggregates_consistent ?pool"
    and sp: "sizes_positive ?pool"
    and r1: "loop_reaches ctx B0 (initialLoop ctx B0) B1 L1"
    and a: "acceptedPackage ctx B1 L1 = Some p"
    and ret: "addPackageTxs_loop ctx B0 (initialLoop ctx B0) = Returned FeeRateCutoff B' L'"
    by (simp_all add: addPackageTxs_def)
  have init: "cutoff_invariant ctx B0 B0 (initialLoop ctx B0)"
    using h by (intro initialLoop_cutoff_invariant) simp_all
  have i1: "cutoff_invariant ctx B0 B1 L1"
    by (rule loop_reaches_cutoff_invariant[OF wf ag r1 init])
  have pr: "of_int (blockMinFeeRate B0) \<le> ancestorFeeRate p"
    by (rule acceptedPackage_rate[OF wf ag sp i1 a])
  from addPackageTxs_loop_reaches[OF ret] obtain L2 where
    r2: "loop_reaches ctx B0 (initialLoop ctx B0) B' L2"
    and ex: "loop_body ctx B' L2 = Exit FeeRateCutoff B' L'" by blast
  have i2: "cutoff_invariant ctx B0 B' L2"
    by (rule loop_reaches_cutoff_invariant[OF wf ag r2 init])
  from ex obtain package fUsingModified mi' where
    sel: "SelectCandidate ?pool (mi L2) (mapModifiedTx L2) = Some (package, fUsingModified, mi')"
    and fee: "nModFeesWithAncestors package
       < CFeeRate_GetFee (blockMinFeeRate B') (nSizeWithAncestors package)"
    and L': "L' = L2\<lparr>mi := mi'\<rparr>"
    by (rule loop_body_cutoffE)
  have pos: "0 < unat (nSizeWithAncestors package)"
    by (rule selected_positive[OF wf ag sp i2 sel])
  have "ancestorFeeRate package < of_int (blockMinFeeRate B')"
    using pos fee by (rule rate_below_cutoff)
  then have low: "ancestorFeeRate package < ancestorFeeRate p"
    using pr i2 by (simp add: cutoff_invariant_def)
  from i2 have sm: "tracker_sorted (mapModifiedTx L2)" and si: "index_sorted ?pool (mi L2)"
    by (simp_all add: cutoff_invariant_def)
  note best = SelectCandidate_best[OF sel sm si]
  show "\<forall>t \<in> set (mi L'). poolFeeRate ?pool t \<le> ancestorFeeRate p"
    using best(2) low L' by fastforce
  show "\<forall>e \<in> set (mapModifiedTx L'). ancestorFeeRate e \<le> ancestorFeeRate p"
    using best(1) low L' by fastforce
qed

theorem fee_rate_cutoff_witness:
  "addPackageTxs_loop example_ctx (example_block_cutoff\<lparr>inBlock := [1, 0]\<rparr>)
     \<lparr>mapModifiedTx = [\<lparr>iter = 2, nSizeWithAncestors = 150, nModFeesWithAncestors = 300,
                         nSigOpCountWithAncestors = 1\<rparr>],
      failedTx = [], mi = [3], nConsecutiveFailed = 0, nPackagesSelected = 2,
      nDescendantsUpdated = 3\<rparr>
   = Returned FeeRateCutoff (example_block_cutoff\<lparr>inBlock := [1, 0]\<rparr>)
     \<lparr>mapModifiedTx = [\<lparr>iter = 2, nSizeWithAncestors = 150, nModFeesWithAncestors = 300,
                         nSigOpCountWithAncestors = 1\<rparr>],
      failedTx = [], mi = [], nConsecutiveFailed = 0, nPackagesSelected = 2,
      nDescendantsUpdated = 3\<rparr> \<and>
   acceptedPackage example_ctx example_block_cutoff (initialLoop example_ctx example_block_cutoff)
     = Some \<lparr>iter = 0, nSizeWithAncestors = 100, nModFeesWithAncestors = 500,
              nSigOpCountWithAncestors = 1\<rparr> \<and>
   ancestorFeeRate \<lparr>iter = 2, nSizeWithAncestors = 150, nModFeesWithAncestors = 300,
                    nSigOpCountWithAncestors = 1\<rparr>
     \<le> ancestorFeeRate \<lparr>iter = 0, nSizeWithAncestors = 100, nModFeesWithAncestors = 500,
                    nSigOpCountWithAncestors = 1\<rparr> \<and>
   ancestorFeeRate \<lparr>iter = 2, nSizeWithAncestors = 150, nModFeesWithAncestors = 300,
                    nSigOpCountWithAncestors = 1\<rparr> = 2 \<and>
   ancestorFeeRate \<lparr>iter = 0, nSizeWithAncestors = 100, nModFeesWithAncestors = 500,
                    nSigOpCountWithAncestors = 1\<rparr> = 5"
proof -
  let ?ea = "\<lparr>iter = 2, nSizeWithAncestors = 150, nModFeesWithAncestors = 300,
              nSigOpCountWithAncestors = 1\<rparr>"
  let ?pa = "\<lparr>iter = 0, nSizeWithAncestors = 100, nModFeesWithAncestors = 500,
              nSigOpCountWithAncestors = 1\<rparr>"
  let ?pc = "\<lparr>iter = 3, nSizeWithAncestors = 120, nModFeesWithAncestors = 240,
              nSigOpCountWithAncestors = 1\<rparr>"
  let ?B = "example_block_cutoff\<lparr>inBlock := [1, 0]\<rparr>"
  let ?L = "\<lparr>mapModifiedTx = [?ea], failedTx = [], mi = [3], nConsecutiveFailed = 0,
             nPackagesSelected = 2, nDescendantsUpdated = 3\<rparr>"
  let ?Bs = "example_block_cutoff"
  let ?Bf = "\<lparr>nBlockMaxSize = 1999000, blockMinFeeRate = 3, nBlockSize = 1600, nBlockTx = 3,
    nBlockSigOps = 102,
    nFees = 1500, nSpecialTxFees = 0, inBlock = [1, 0],
    vtx = [TxNull, TxQuorumCommitment 300, TxMempool 0, TxMempool 1],
    vTxFees = [-1, 0, 500, 1000], vSpecialTxFees = [-1, 0, 0, 0],
    vTxSigOps = [-1, 0, 1, 1]\<rparr>"
  let ?Lf = "\<lparr>mapModifiedTx = [?ea], failedTx = [], mi = [], nConsecutiveFailed = 0,
              nPackagesSelected = 2, nDescendantsUpdated = 3\<rparr>"
  note t = fee_rate_cutoff[of ?L ?B example_ctx ?pc False "[]" ?Bs ?Bs
      "initialLoop example_ctx ?Bs" ?pa ?Bf ?Lf]
  have h1: "\<not> (mi ?L \<noteq> [] \<and> SkipMapTxEntry ?B (hd (mi ?L)) (mapModifiedTx ?L) (failedTx ?L))"
    by (simp add: SkipMapTxEntry_def mod_count_def)
  have h2: "SelectCandidate (m_mempool example_ctx) (mi ?L) (mapModifiedTx ?L)
              = Some (?pc, False, [])"
    by (simp add: SelectCandidate_def CompareTxMemPoolEntryByAncestorFee_def ancestorFeeRate_def
        CTxMemPoolModifiedEntry_of_def example_ctx_def example_pool_def mkEntry_def)
  have h3: "iter ?pc \<notin> set (inBlock ?B)" by simp
  have h4: "nModFeesWithAncestors ?pc
              < CFeeRate_GetFee (blockMinFeeRate ?B) (nSizeWithAncestors ?pc)"
    by (simp add: CFeeRate_GetFee_def ex_cutoff_block)
  have 1: "addPackageTxs_loop example_ctx ?B ?L = Returned FeeRateCutoff ?B (?L\<lparr>mi := []\<rparr>)"
    using t h1 h2 h3 h4 by blast
  have bc: "block_consistent (m_mempool example_ctx) ?Bs"
    by (simp add: block_consistent_def ex_cutoff_block)
  have d: "distinct (inBlock ?Bs)" by (simp add: ex_cutoff_block)
  have r: "loop_reaches example_ctx ?Bs (initialLoop example_ctx ?Bs) ?Bs (initialLoop example_ctx ?Bs)"
    by (rule loop_reaches_start)
  have a: "acceptedPackage example_ctx ?Bs (initialLoop example_ctx ?Bs) = Some ?pa"
    unfolding ex_cutoff_block
    by (simp add: acceptedPackage_def example_ctx_def example_miner_def example_pool_def
        mkEntry_def loop_defs)
  have 2: "(\<forall>t \<in> set (mi ?Lf). poolFeeRate (m_mempool example_ctx) t \<le> ancestorFeeRate ?pa) \<and>
      (\<forall>e \<in> set (mapModifiedTx ?Lf). ancestorFeeRate e \<le> ancestorFeeRate ?pa)"
    using t example_pool_ancestry example_pool_aggregates example_pool_sorted bc d r a ex_cutoff_run
    by blast
  have 3: "ancestorFeeRate ?ea = 2" "ancestorFeeRate ?pa = 5"
    by (simp_all add: ancestorFeeRate_def)
  show ?thesis using 1 2 3 a by simp
qed


end
